theory Spec2Isabelle
  imports Main
begin

section \<open>The request queue (core/model/new_request_model.py)\<close>

subsection \<open>Data model\<close>

text \<open>
  The ResultList model of \<^verbatim>\<open>_create_model\<close>: an auto-increment integer primary key,
  the serialised request, its hash (the unique index), the integer status column and the
  insertion time. The status column is an \<^verbatim>\<open>IntegerField\<close>, so it is an integer here,
  with the four codes of the source comment: 0 not scanned, 1 scanned, 2 being scanned,
  3 failed while scanning.
\<close>

record ResultList =
  row_id :: int
  data :: string
  data_hash :: string
  scan_status :: int
  time :: int

abbreviation (input) UNSCANNED :: int where "UNSCANNED \<equiv> 0"
abbreviation (input) SCANNED :: int where "SCANNED \<equiv> 1"
abbreviation (input) IN_PROGRESS :: int where "IN_PROGRESS \<equiv> 2"
abbreviation (input) FAILED :: int where "FAILED \<equiv> 3"

text \<open>
  A NewRequestModel instance: the table it is bound to (the rows in the order in which the
  database scans them) and the in-memory cursor \<^verbatim>\<open>self.start_id\<close>.
\<close>

record NewRequestModel =
  table :: "ResultList list"
  start_id :: int

datatype exception = DatabaseError | ScanRequestFailed | AttributeError | UnboundLocalError

text \<open>What the database driver can raise from a statement.\<close>

datatype driver_error = IntegrityError | OtherError

subsection \<open>SQL fragments\<close>

text \<open>\<^verbatim>\<open>UPDATE ... SET scan_status = v WHERE p\<close>\<close>

definition update_status :: "(ResultList \<Rightarrow> bool) \<Rightarrow> int \<Rightarrow> ResultList list \<Rightarrow> ResultList list" where
  "update_status p v t = map (\<lambda>r. if p r then r\<lparr>scan_status := v\<rparr> else r) t"

text \<open>\<^verbatim>\<open>SELECT MIN(id) ... WHERE p\<close> and \<^verbatim>\<open>SELECT MAX(id) ... WHERE p\<close>: NULL on no row.\<close>

definition select_min_id :: "(ResultList \<Rightarrow> bool) \<Rightarrow> ResultList list \<Rightarrow> int option" where
  "select_min_id p t =
     (case map row_id (filter p t) of [] \<Rightarrow> None | x # xs \<Rightarrow> Some (fold min xs x))"

definition select_max_id :: "(ResultList \<Rightarrow> bool) \<Rightarrow> ResultList list \<Rightarrow> int option" where
  "select_max_id p t =
     (case map row_id (filter p t) of [] \<Rightarrow> None | x # xs \<Rightarrow> Some (fold max xs x))"

text \<open>\<^verbatim>\<open>SELECT ... WHERE p ORDER BY id LIMIT n\<close>\<close>

definition select_ordered :: "(ResultList \<Rightarrow> bool) \<Rightarrow> nat \<Rightarrow> ResultList list \<Rightarrow> ResultList list" where
  "select_ordered p n t = take n (sort_key row_id (filter p t))"

text \<open>
  The value an \<^verbatim>\<open>AutoField\<close> gets on insert: one more than the largest id of the table,
  1 on the empty table.
\<close>

definition next_id :: "ResultList list \<Rightarrow> int" where
  "next_id t = fold max (map row_id t) 0 + 1"

subsection \<open>Construction\<close>

text \<open>
  Every statement sent to the database may raise; each operation below takes the number of
  the statement (counted from 0 within the call) whose execution raises, \<open>None\<close> when
  none does. The source turns such an exception into \<^verbatim>\<open>DatabaseError\<close>.

  The constructor of the base class, which binds the model to its table, is not among the
  sources; the table is the argument of the constructor here.
\<close>

definition init_start_id :: "nat option \<Rightarrow> ResultList list \<Rightarrow> exception + int" where
  "init_start_id fault t =
     (if fault = Some 0 then Inl DatabaseError
      else case select_min_id (\<lambda>r. scan_status r \<noteq> 1) t of
             None \<Rightarrow> Inr 0
           | Some result \<Rightarrow> Inr (result - 1))"

definition new_request_model :: "nat option \<Rightarrow> ResultList list \<Rightarrow> exception + NewRequestModel" where
  "new_request_model fault t =
     (case init_start_id fault t of
        Inl e \<Rightarrow> Inl e
      | Inr s \<Rightarrow> Inr \<lparr>table = t, start_id = s\<rparr>)"

definition reset_unscanned_item :: "nat option \<Rightarrow> NewRequestModel \<Rightarrow> NewRequestModel \<times> (exception + unit)" where
  "reset_unscanned_item fault q =
     (if fault = Some 0 then (q, Inl DatabaseError)
      else (q\<lparr>table := update_status (\<lambda>r. scan_status r > 1) 0 (table q)\<rparr>, Inr ()))"

definition get_start_id :: "NewRequestModel \<Rightarrow> int" where
  "get_start_id q = start_id q"

subsection \<open>put\<close>

text \<open>
  The argument of \<^verbatim>\<open>put\<close> is a RaspResult; the queue uses its serialisation and its hash
  only. \<open>exc\<close> is an exception that the body of the \<^verbatim>\<open>try\<close> raises for a reason other
  than the unique index on \<open>data_hash\<close> (another constraint, a lost connection);
  \<open>now\<close> is the value of \<^verbatim>\<open>common.get_timestamp\<close> at the insert.
\<close>

record RaspResult =
  dump :: string
  get_hash :: string

definition create_object ::
  "driver_error option \<Rightarrow> ResultList list \<Rightarrow> string \<Rightarrow> string \<Rightarrow> int \<Rightarrow> driver_error + ResultList list" where
  "create_object exc t d h now =
     (case exc of
        Some e \<Rightarrow> Inl e
      | None \<Rightarrow>
          if h \<in> set (map data_hash t) then Inl IntegrityError
          else Inr (t @ [\<lparr>row_id = next_id t, data = d, data_hash = h,
                           scan_status = 0, time = now\<rparr>]))"

definition put ::
  "driver_error option \<Rightarrow> NewRequestModel \<Rightarrow> RaspResult \<Rightarrow> int \<Rightarrow> NewRequestModel \<times> (exception + bool)" where
  "put exc q rasp_result_ins now =
     (case create_object exc (table q) (dump rasp_result_ins) (get_hash rasp_result_ins) now of
        Inl IntegrityError \<Rightarrow> (q, Inr False)
      | Inl OtherError \<Rightarrow> (q, Inl DatabaseError)
      | Inr t' \<Rightarrow> (q\<lparr>table := t'\<rparr>, Inr True))"

subsection \<open>get\_new\_scan\<close>

text \<open>
  Statement 0 is the probe (one row, no ordering: the first matching row in scan order),
  statement 1 the claiming update (ordered by id, at most \<open>count\<close> rows), statement 2 the
  fetch; 3 stands for the decoding loop, which runs inside the same \<^verbatim>\<open>try\<close>. \<open>count\<close>
  is the operand of \<^verbatim>\<open>LIMIT\<close>, a natural number. An item of the result is the pair of the
  id and the data of a row; the number of rows the update reports is the number it changed.
\<close>

definition get_new_scan ::
  "nat option \<Rightarrow> NewRequestModel \<Rightarrow> nat \<Rightarrow> NewRequestModel \<times> (exception + (int \<times> string) list)" where
  "get_new_scan fault q count =
     (if fault = Some 0 then (q, Inl DatabaseError)
      else case filter (\<lambda>r. row_id r > start_id q \<and> scan_status r = 0) (table q) of
        [] \<Rightarrow> (q, Inr [])
      | d # _ \<Rightarrow>
         (let fetch_star_id = row_id d in
          if fault = Some 1 then (q, Inl DatabaseError)
          else
            let claimed = select_ordered (\<lambda>r. scan_status r = 0 \<and> row_id r > start_id q) count (table q);
                row_count = length claimed;
                q' = q\<lparr>table := update_status (\<lambda>r. row_id r \<in> set (map row_id claimed)) 2 (table q)\<rparr>
            in
              if row_count = 0 then (q', Inr [])
              else if fault = Some 2 then (q', Inl DatabaseError)
              else
                let lines = select_ordered (\<lambda>r. row_id r \<ge> fetch_star_id \<and> scan_status r = 2)
                              row_count (table q')
                in if fault = Some 3 then (q', Inl DatabaseError)
                   else (q', Inr (map (\<lambda>line. (row_id line, data line)) lines))))"

text \<open>The table as the claiming update of \<^verbatim>\<open>get_new_scan\<close> leaves it.\<close>

definition claim_rows :: "NewRequestModel \<Rightarrow> nat \<Rightarrow> ResultList list" where
  "claim_rows q count =
     update_status (\<lambda>r. row_id r \<in> set (map row_id
        (select_ordered (\<lambda>r. scan_status r = 0 \<and> row_id r > start_id q) count (table q))))
       2 (table q)"

text \<open>The records that \<^verbatim>\<open>get_new_scan\<close> may claim, in scan order.\<close>

definition waiting :: "NewRequestModel \<Rightarrow> ResultList list" where
  "waiting q = filter (\<lambda>r. row_id r > start_id q \<and> scan_status r = 0) (table q)"

subsection \<open>mark\_result\<close>

text \<open>
  Statements 0 and 1 are the two updates, statement 2 the \<^verbatim>\<open>MAX\<close> query; each has its own
  \<^verbatim>\<open>try\<close>, so a failure leaves the updates made before it in the table.
\<close>

definition mark_result ::
  "nat option \<Rightarrow> NewRequestModel \<Rightarrow> int \<Rightarrow> int list \<Rightarrow> NewRequestModel \<times> (exception + unit)" where
  "mark_result fault q last_id failed_list =
     (if last_id > start_id q then
        if fault = Some 0 then (q, Inl DatabaseError)
        else
          let t1 = update_status (\<lambda>r. row_id r \<le> last_id \<and> row_id r > start_id q
                                      \<and> row_id r \<in> set failed_list) 3 (table q)
          in if fault = Some 1 then (q\<lparr>table := t1\<rparr>, Inl DatabaseError)
          else
            let t2 = update_status (\<lambda>r. row_id r \<le> last_id \<and> row_id r > start_id q
                                        \<and> scan_status r = 2) 1 t1
            in if fault = Some 2 then (q\<lparr>table := t2\<rparr>, Inl DatabaseError)
            else case select_max_id (\<lambda>r. row_id r > start_id q \<and> scan_status r = 1) t2 of
                   None \<Rightarrow> (q\<lparr>table := t2\<rparr>, Inr ())
                 | Some result \<Rightarrow> (q\<lparr>table := t2, start_id := result\<rparr>, Inr ())
      else (q, Inr ()))"

text \<open>The table as the two updates of \<^verbatim>\<open>mark_result\<close> leave it.\<close>

definition marked :: "NewRequestModel \<Rightarrow> int \<Rightarrow> int list \<Rightarrow> ResultList list" where
  "marked q last_id failed_list =
     update_status (\<lambda>r. row_id r \<le> last_id \<and> row_id r > start_id q \<and> scan_status r = 2) 1
       (update_status (\<lambda>r. row_id r \<le> last_id \<and> row_id r > start_id q
                            \<and> row_id r \<in> set failed_list) 3 (table q))"

subsection \<open>Startup\<close>

text \<open>
  Modelled from the spec: the startup sequence of section 4.2, construction of the queue
  followed by one call of \<^verbatim>\<open>reset_unscanned_item\<close>. The caller that runs the reset after
  constructing the model is not among the sources; \<^verbatim>\<open>__init__\<close> itself calls
  \<^verbatim>\<open>_init_start_id\<close> only.
\<close>

definition startup :: "nat option \<Rightarrow> nat option \<Rightarrow> ResultList list \<Rightarrow> exception + NewRequestModel" where
  "startup fault fault' t =
     (case new_request_model fault t of
        Inl e \<Rightarrow> Inl e
      | Inr q \<Rightarrow>
          (case reset_unscanned_item fault' q of
             (q', Inl e) \<Rightarrow> Inl e
           | (q', Inr u) \<Rightarrow> Inr q'))"

subsection \<open>Sequences of operations\<close>

text \<open>
  The operations a caller can apply to a queue, each with the failure of the database in
  it, and the queue after an operation, whether it returned or raised.
\<close>

datatype operation =
    Put "driver_error option" RaspResult int
  | GetNewScan "nat option" nat
  | MarkResult "nat option" int "int list"
  | ResetUnscannedItem "nat option"

fun exec :: "NewRequestModel \<Rightarrow> operation \<Rightarrow> NewRequestModel" where
  "exec q (Put exc r now) = fst (put exc q r now)"
| "exec q (GetNewScan fault count) = fst (get_new_scan fault q count)"
| "exec q (MarkResult fault last_id failed_list) = fst (mark_result fault q last_id failed_list)"
| "exec q (ResetUnscannedItem fault) = fst (reset_unscanned_item fault q)"

definition run :: "NewRequestModel \<Rightarrow> operation list \<Rightarrow> NewRequestModel" where
  "run q ops = foldl exec q ops"

text \<open>The cursor invariant: no record at or below \<open>start_id\<close> is waiting or in progress.\<close>

definition cursor_inv :: "NewRequestModel \<Rightarrow> bool" where
  "cursor_inv q =
     (\<forall>r\<in>set (table q). row_id r \<le> start_id q \<longrightarrow> scan_status r = SCANNED \<or> scan_status r = FAILED)"

text \<open>The columns that only an insert writes.\<close>

definition payload :: "ResultList \<Rightarrow> int \<times> string \<times> string \<times> int" where
  "payload r = (row_id r, data r, data_hash r, time r)"

text \<open>
  The conditions under which an operation keeps the cursor invariant. \<open>put\<close> and
  \<open>get_new_scan\<close> always do. \<open>mark_result(last_id, failed_list)\<close> does when it is a
  no-op, or when the range above \<open>start_id\<close> up to \<open>last_id\<close> holds no record that is
  still waiting unless \<open>failed_list\<close> names it, and no record above \<open>last_id\<close> is
  SCANNED. \<open>reset_unscanned_item\<close> does when no record at or below \<open>start_id\<close> is
  FAILED, as is the case right after construction.
\<close>

fun admissible :: "NewRequestModel \<Rightarrow> operation \<Rightarrow> bool" where
  "admissible q (Put exc r now) = True"
| "admissible q (GetNewScan fault count) = True"
| "admissible q (MarkResult fault last_id failed_list) =
     (last_id \<le> start_id q \<or>
      (\<forall>r\<in>set (table q).
          (start_id q < row_id r \<and> row_id r \<le> last_id \<longrightarrow>
             row_id r \<in> set failed_list \<or> scan_status r = SCANNED
             \<or> scan_status r = IN_PROGRESS \<or> scan_status r = FAILED)
        \<and> (last_id < row_id r \<longrightarrow> scan_status r \<noteq> SCANNED)))"
| "admissible q (ResetUnscannedItem fault) =
     (\<forall>r\<in>set (table q). row_id r \<le> start_id q \<longrightarrow> scan_status r \<noteq> FAILED)"

fun run_ok :: "NewRequestModel \<Rightarrow> operation list \<Rightarrow> bool" where
  "run_ok q [] = True"
| "run_ok q (op # ops) = (admissible q op \<and> run_ok (exec q op) ops)"

text \<open>
  The invariant together with what keeps an insert above the cursor: \<open>start_id\<close> is
  below the next id the table hands out.
\<close>

definition cursor_ok :: "NewRequestModel \<Rightarrow> bool" where
  "cursor_ok q = (cursor_inv q \<and> start_id q < next_id (table q))"

text \<open>
  A table as inserts build it: scanned in id order, with distinct and positive ids.
\<close>

definition well_formed :: "ResultList list \<Rightarrow> bool" where
  "well_formed t = (sorted_wrt (<) (map row_id t) \<and> list_all (\<lambda>r. 0 < row_id r) t)"

section \<open>The probe session (core/components/audit\_tools/session.py)\<close>

record response =
  status :: int
  headers :: "(string \<times> string) list"
  body :: string

text \<open>
  What one pass through the body of the \<^verbatim>\<open>try\<close> ends in: the response, with its body
  read, or an exception of the first handler (timeout, client error) or of the second (any
  other \<^verbatim>\<open>Exception\<close>).
\<close>

datatype outcome = Returned response | TimeoutError | ClientError | OtherException

text \<open>
  \<^verbatim>\<open>getattr(self.session, name)\<close> on the aiohttp session gives one of its attributes, or
  raises \<^verbatim>\<open>AttributeError\<close> when it has none of that name. An attribute is a verb (get,
  post, ...), which issues a request each time it is called, or anything else (close,
  closed, ...). The source calls the attribute once per pass, with the keyword arguments
  of a request: a verb ends as the transport decides, given here as the function from the
  number of the call to what the call ends in; calling any other attribute in that way
  raises \<^verbatim>\<open>TypeError\<close>, which the second handler catches.
\<close>

type_synonym http_func = "nat \<Rightarrow> outcome"

datatype attribute = HttpVerb http_func | NotVerb

fun call :: "attribute \<Rightarrow> http_func" where
  "call (HttpVerb transport) n = transport n"
| "call NotVerb n = OtherException"

text \<open>
  The loop of \<^verbatim>\<open>send_request\<close>. The state is \<open>retry_times\<close>, the number of passes made,
  the seconds slept and the variable \<open>response\<close>, unbound (\<open>None\<close>) until a pass succeeds.
\<close>

function send_loop :: "http_func \<Rightarrow> int \<Rightarrow> nat \<Rightarrow> nat \<Rightarrow> int \<times> nat \<times> nat \<times> response option" where
  "send_loop http_func retry_times n slept =
     (if retry_times \<ge> 0 then
        (case http_func n of
           Returned resp \<Rightarrow> (retry_times, Suc n, slept, Some resp)
         | TimeoutError \<Rightarrow> send_loop http_func (retry_times - 1) (Suc n) (Suc slept)
         | ClientError \<Rightarrow> send_loop http_func (retry_times - 1) (Suc n) (Suc slept)
         | OtherException \<Rightarrow> send_loop http_func (retry_times - 1) (Suc n) (Suc slept))
      else (retry_times, n, slept, None))"
  by pat_completeness auto
termination
  by (relation "measure (\<lambda>(f, r, n, s). nat (r + 1))") auto

record sent =
  attempts :: nat
  sleeps :: nat
  result :: "exception + response"

definition send_request :: "(string \<rightharpoonup> attribute) \<Rightarrow> int \<Rightarrow> string \<Rightarrow> sent" where
  "send_request session retry_times method =
     (case session method of
        None \<Rightarrow> \<lparr>attempts = 0, sleeps = 0, result = Inl AttributeError\<rparr>
      | Some http_func \<Rightarrow>
          (case send_loop (call http_func) retry_times 0 0 of
             (r, n, slept, resp) \<Rightarrow>
               if r \<ge> 0 then
                 (case resp of
                    Some v \<Rightarrow> \<lparr>attempts = n, sleeps = slept, result = Inr v\<rparr>
                  | None \<Rightarrow> \<lparr>attempts = n, sleeps = slept, result = Inl UnboundLocalError\<rparr>)
               else \<lparr>attempts = n, sleeps = slept, result = Inl ScanRequestFailed\<rparr>))"

text \<open>A pass fails when it ends in an exception.\<close>

definition failed :: "outcome \<Rightarrow> bool" where
  "failed oc = (case oc of Returned _ \<Rightarrow> False | _ \<Rightarrow> True)"

section \<open>Scenarios\<close>

definition row :: "int \<Rightarrow> int \<Rightarrow> ResultList" where
  "row i st = \<lparr>row_id = i, data = ''d'', data_hash = [char_of i], scan_status = st, time = 0\<rparr>"

text \<open>Ids 1 to 4, all dispatched, nothing completed yet.\<close>

definition S3_queue :: NewRequestModel where
  "S3_queue = \<lparr>table = [row 1 2, row 2 2, row 3 2, row 4 2], start_id = 0\<rparr>"


text \<open>A queue on the empty table, and a RaspResult with a given serialisation and hash.\<close>

definition fresh_queue :: NewRequestModel where
  "fresh_queue = \<lparr>table = [], start_id = 0\<rparr>"

definition rasp :: "string \<Rightarrow> string \<Rightarrow> RaspResult" where
  "rasp d h = \<lparr>dump = d, get_hash = h\<rparr>"

text \<open>
  A life of a queue: four inserts, the third a duplicate of the first; two records dispatched
  and completed; the last record dispatched and failed.
\<close>

definition S2_run :: "operation list" where
  "S2_run = [Put None (rasp ''GET /a'' ''a'') 10, Put None (rasp ''GET /b'' ''b'') 11,
             Put None (rasp ''GET /a'' ''a'') 12, Put None (rasp ''GET /c'' ''c'') 13,
             GetNewScan None 2, MarkResult None 2 [], GetNewScan None 5, MarkResult None 3 [3]]"

text \<open>Scenario S5: the first two calls time out, the third returns 200.\<close>

definition ok200 :: response where
  "ok200 = \<lparr>status = 200, headers = [(''Content-Type'', ''text/html'')], body = ''ok''\<rparr>"

definition S5_transport :: http_func where
  "S5_transport n = (if n < 2 then TimeoutError else Returned ok200)"

text \<open>
  The attributes of an \<^verbatim>\<open>aiohttp.ClientSession\<close> that matter here: its seven verbs, and
  some of its other attributes, among them \<^verbatim>\<open>close\<close>, which \<^verbatim>\<open>Session.close\<close> calls.
\<close>

definition ClientSession :: "http_func \<Rightarrow> string \<rightharpoonup> attribute" where
  "ClientSession transport name =
     (if name \<in> set [''get'', ''post'', ''put'', ''delete'', ''head'', ''options'', ''patch'']
        then Some (HttpVerb transport)
      else if name \<in> set [''request'', ''ws_connect'', ''close'', ''closed'', ''detach'',
                            ''connector'', ''cookie_jar'']
        then Some NotVerb
      else None)"

text \<open>
  A table left by an earlier process: id 1 and 5 completed, 2 dispatched and unfinished,
  3 failed, 4 never dispatched.
\<close>

definition restart_table :: "ResultList list" where
  "restart_table = [row 1 1, row 2 2, row 3 3, row 4 0, row 5 1]"

text \<open>Three records inserted and dispatched together.\<close>

definition dispatch_three :: "operation list" where
  "dispatch_three = [Put None (rasp ''GET /a'' ''a'') 10, Put None (rasp ''GET /b'' ''b'') 11,
             Put None (rasp ''GET /c'' ''c'') 12, GetNewScan None 3]"

text \<open>
  The table a process leaves when, of the three, the first two failed and the third was
  completed.
\<close>

definition left_table :: "ResultList list" where
  "left_table = table (run fresh_queue (dispatch_three @ [MarkResult None 3 [1, 2]]))"

section \<open>Properties of the SQL fragments\<close>

lemma length_update_status: "length (update_status p v t) = length t"
  by (simp add: update_status_def)

lemma nth_update_status:
  "i < length t \<Longrightarrow>
     update_status p v t ! i = (if p (t ! i) then (t ! i)\<lparr>scan_status := v\<rparr> else t ! i)"
  by (simp add: update_status_def)

lemma row_id_update_status: "map row_id (update_status p v t) = map row_id t"
  by (simp add: update_status_def)

lemma fold_max_Max: "fold max xs (x::int) = Max (set (x # xs))"
  by (simp only: Max.set_eq_fold)

lemma fold_min_Min: "fold min xs (x::int) = Min (set (x # xs))"
  by (simp only: Min.set_eq_fold)

lemma select_max_id_None: "select_max_id p t = None \<longleftrightarrow> (\<forall>r\<in>set t. \<not> p r)"
proof -
  have "select_max_id p t = None \<longleftrightarrow> filter p t = []"
    by (cases "filter p t") (simp_all add: select_max_id_def)
  then show ?thesis by (simp add: filter_empty_conv)
qed

lemma select_max_id_Some:
  assumes "select_max_id p t = Some m"
  shows "\<exists>r\<in>set t. p r \<and> row_id r = m" and "\<forall>r\<in>set t. p r \<longrightarrow> row_id r \<le> m"
proof -
  from assms obtain x xs where ids: "map row_id (filter p t) = x # xs"
    and m: "m = Max (set (x # xs))"
    by (auto simp: select_max_id_def fold_max_Max split: list.splits)
  have "m \<in> set (x # xs)" unfolding m by (rule Max_in) simp_all
  then have "m \<in> set (map row_id (filter p t))" by (simp only: ids)
  then show "\<exists>r\<in>set t. p r \<and> row_id r = m" by auto
  show "\<forall>r\<in>set t. p r \<longrightarrow> row_id r \<le> m"
  proof (intro ballI impI)
    fix r assume "r \<in> set t" "p r"
    then have "row_id r \<in> set (map row_id (filter p t))" by auto
    then have "row_id r \<in> set (x # xs)" by (simp only: ids)
    then show "row_id r \<le> m" unfolding m by (intro Max_ge) simp_all
  qed
qed

lemma select_min_id_None: "select_min_id p t = None \<longleftrightarrow> (\<forall>r\<in>set t. \<not> p r)"
proof -
  have "select_min_id p t = None \<longleftrightarrow> filter p t = []"
    by (cases "filter p t") (simp_all add: select_min_id_def)
  then show ?thesis by (simp add: filter_empty_conv)
qed

lemma select_min_id_Some:
  assumes "select_min_id p t = Some m"
  shows "\<exists>r\<in>set t. p r \<and> row_id r = m" and "\<forall>r\<in>set t. p r \<longrightarrow> m \<le> row_id r"
proof -
  from assms obtain x xs where ids: "map row_id (filter p t) = x # xs"
    and m: "m = Min (set (x # xs))"
    by (auto simp: select_min_id_def fold_min_Min split: list.splits)
  have "m \<in> set (x # xs)" unfolding m by (rule Min_in) simp_all
  then have "m \<in> set (map row_id (filter p t))" by (simp only: ids)
  then show "\<exists>r\<in>set t. p r \<and> row_id r = m" by auto
  show "\<forall>r\<in>set t. p r \<longrightarrow> m \<le> row_id r"
  proof (intro ballI impI)
    fix r assume "r \<in> set t" "p r"
    then have "row_id r \<in> set (map row_id (filter p t))" by auto
    then have "row_id r \<in> set (x # xs)" by (simp only: ids)
    then show "m \<le> row_id r" unfolding m by (intro Min_le) simp_all
  qed
qed

section \<open>mark\_result\<close>

lemma mark_result_table:
  "start_id q < last_id \<Longrightarrow>
     table (fst (mark_result None q last_id failed_list)) = marked q last_id failed_list"
  by (simp add: mark_result_def marked_def Let_def split: option.splits)

lemma mark_result_ok: "snd (mark_result None q last_id failed_list) = Inr ()"
  by (simp add: mark_result_def Let_def split: option.splits)

lemma mark_result_start_id:
  "start_id q < last_id \<Longrightarrow>
     start_id (fst (mark_result None q last_id failed_list)) =
       (case select_max_id (\<lambda>r. row_id r > start_id q \<and> scan_status r = 1)
               (marked q last_id failed_list) of
          None \<Rightarrow> start_id q | Some m \<Rightarrow> m)"
  by (simp add: mark_result_def marked_def Let_def split: option.splits)

lemma nth_marked:
  "i < length (table q) \<Longrightarrow> marked q last_id failed_list ! i =
    (let r = table q ! i in
     if row_id r \<le> last_id \<and> row_id r > start_id q \<and> row_id r \<in> set failed_list
       then r\<lparr>scan_status := 3\<rparr>
     else if row_id r \<le> last_id \<and> row_id r > start_id q \<and> scan_status r = 2
       then r\<lparr>scan_status := 1\<rparr>
     else r)"
  by (simp add: marked_def nth_update_status length_update_status Let_def)

text \<open>
  C1. A call \<open>mark_result(last_id, failed_ids)\<close> that the database serves returns normally
  and keeps the rows in place. When \<open>last_id > start_id\<close>: a record in the range
  \<open>start_id < id \<le> last_id\<close> whose id is in \<open>failed_ids\<close> ends FAILED; a record in the
  range that was IN\_PROGRESS and is not in \<open>failed_ids\<close> ends SCANNED; a record listed in
  \<open>failed_ids\<close> is SCANNED afterwards only if it was SCANNED before; and \<open>start_id\<close> becomes
  the largest id above the old \<open>start_id\<close> of a SCANNED record when there is one, and stays
  otherwise. When \<open>last_id \<le> start_id\<close> the queue is unchanged.
\<close>

theorem mark_result_spec:
  fixes q :: NewRequestModel and last_id :: int and failed_list :: "int list"
  defines "res \<equiv> mark_result None q last_id failed_list"
  shows "snd res = Inr ()
    \<and> length (table (fst res)) = length (table q)
    \<and> (start_id q < last_id \<longrightarrow>
          (\<forall>i < length (table q).
              start_id q < row_id (table q ! i) \<and> row_id (table q ! i) \<le> last_id \<longrightarrow>
                (row_id (table q ! i) \<in> set failed_list \<longrightarrow>
                    scan_status (table (fst res) ! i) = FAILED)
              \<and> (row_id (table q ! i) \<notin> set failed_list \<and> scan_status (table q ! i) = IN_PROGRESS
                    \<longrightarrow> scan_status (table (fst res) ! i) = SCANNED))
        \<and> (\<forall>i < length (table q).
              row_id (table q ! i) \<in> set failed_list \<and> scan_status (table (fst res) ! i) = SCANNED
                \<longrightarrow> scan_status (table q ! i) = SCANNED)
        \<and> (if \<exists>r\<in>set (table (fst res)). start_id q < row_id r \<and> scan_status r = SCANNED
            then start_id (fst res) =
                   Max (row_id ` {r \<in> set (table (fst res)).
                                   start_id q < row_id r \<and> scan_status r = SCANNED})
            else start_id (fst res) = start_id q))
    \<and> (last_id \<le> start_id q \<longrightarrow> fst res = q)"
proof (intro conjI impI allI)
  show "snd res = Inr ()" unfolding res_def by (rule mark_result_ok)
  show "length (table (fst res)) = length (table q)"
    unfolding res_def by (cases "start_id q < last_id")
      (simp_all add: mark_result_table marked_def length_update_status, simp add: mark_result_def)
  show "fst res = q" if "last_id \<le> start_id q"
    using that unfolding res_def by (simp add: mark_result_def)
next
  fix i
  assume lt: "start_id q < last_id" and i: "i < length (table q)"
    and rng: "start_id q < row_id (table q ! i) \<and> row_id (table q ! i) \<le> last_id"
  show "scan_status (table (fst res) ! i) = FAILED" if "row_id (table q ! i) \<in> set failed_list"
    using that lt i rng unfolding res_def by (simp add: mark_result_table nth_marked)
  show "scan_status (table (fst res) ! i) = SCANNED"
    if "row_id (table q ! i) \<notin> set failed_list \<and> scan_status (table q ! i) = IN_PROGRESS"
    using that lt i rng unfolding res_def by (simp add: mark_result_table nth_marked)
next
  fix i
  assume lt: "start_id q < last_id" and i: "i < length (table q)"
    and "row_id (table q ! i) \<in> set failed_list \<and> scan_status (table (fst res) ! i) = SCANNED"
  then show "scan_status (table q ! i) = SCANNED"
    unfolding res_def by (simp add: mark_result_table nth_marked Let_def split: if_splits)
next
  assume lt: "start_id q < last_id"
  let ?p = "\<lambda>r. start_id q < row_id r \<and> scan_status r = SCANNED"
  let ?t = "marked q last_id failed_list"
  have tbl: "table (fst res) = ?t" unfolding res_def using lt by (rule mark_result_table)
  have sid: "start_id (fst res) = (case select_max_id ?p ?t of None \<Rightarrow> start_id q | Some m \<Rightarrow> m)"
    unfolding res_def using lt by (rule mark_result_start_id)
  show "if \<exists>r\<in>set (table (fst res)). start_id q < row_id r \<and> scan_status r = SCANNED
        then start_id (fst res) =
               Max (row_id ` {r \<in> set (table (fst res)).
                               start_id q < row_id r \<and> scan_status r = SCANNED})
        else start_id (fst res) = start_id q"
  proof (cases "select_max_id ?p ?t")
    case None
    then have "\<forall>r\<in>set ?t. \<not> ?p r" by (simp only: select_max_id_None)
    moreover have "start_id (fst res) = start_id q" using sid None by simp
    ultimately show ?thesis unfolding tbl by auto
  next
    case (Some m)
    from select_max_id_Some[OF Some] have ex: "\<exists>r\<in>set ?t. ?p r \<and> row_id r = m"
      and ub: "\<forall>r\<in>set ?t. ?p r \<longrightarrow> row_id r \<le> m" by blast+
    have "Max (row_id ` {r \<in> set ?t. ?p r}) = m"
    proof (rule Max_eqI)
      show "finite (row_id ` {r \<in> set ?t. ?p r})" by simp
      show "\<And>y. y \<in> row_id ` {r \<in> set ?t. ?p r} \<Longrightarrow> y \<le> m" using ub by auto
      show "m \<in> row_id ` {r \<in> set ?t. ?p r}" using ex by auto
    qed
    moreover have "\<exists>r\<in>set ?t. ?p r" using ex by blast
    ultimately show ?thesis using sid Some by (simp add: tbl)
  qed
qed

text \<open>
  Scenario S3 as an instance: ids 1 to 4 dispatched, \<open>mark_result(4, [3, 4])\<close>; ids 1 and 2
  end SCANNED, ids 3 and 4 FAILED, and \<open>start_id\<close> is 2.
\<close>

theorem mark_result_spec_witness:
  "start_id S3_queue < 4
   \<and> map scan_status (table (fst (mark_result None S3_queue 4 [3, 4]))) = [SCANNED, SCANNED, FAILED, FAILED]
   \<and> start_id (fst (mark_result None S3_queue 4 [3, 4])) = 2
   \<and> snd (mark_result None S3_queue 4 [3, 4]) = Inr ()
   \<and> fst (mark_result None (S3_queue\<lparr>start_id := 4\<rparr>) 4 [3, 4]) = S3_queue\<lparr>start_id := 4\<rparr>"
  using mark_result_spec [of S3_queue 4 "[3, 4]"] mark_result_spec [of "S3_queue\<lparr>start_id := 4\<rparr>" 4 "[3, 4]"]
  by (simp add: S3_queue_def row_def mark_result_def update_status_def select_max_id_def Let_def)

section \<open>get\_new\_scan\<close>

lemma select_ordered_subset: "set (select_ordered p n t) \<subseteq> {r \<in> set t. p r}"
proof -
  have "set (take n (sort_key row_id (filter p t))) \<subseteq> set (sort_key row_id (filter p t))"
    by (rule set_take_subset)
  then show ?thesis by (auto simp: select_ordered_def)
qed



lemma get_new_scan_empty:
  "filter (\<lambda>r. row_id r > start_id q \<and> scan_status r = 0) (table q) = [] \<Longrightarrow>
     get_new_scan None q count = (q, Inr [])"
  by (simp add: get_new_scan_def)

lemma get_new_scan_Cons:
  assumes "filter (\<lambda>r. row_id r > start_id q \<and> scan_status r = 0) (table q) = d # ds"
  shows "get_new_scan None q count =
     (q\<lparr>table := claim_rows q count\<rparr>,
      Inr (map (\<lambda>line. (row_id line, data line))
        (select_ordered (\<lambda>r. row_id r \<ge> row_id d \<and> scan_status r = 2)
           (length (select_ordered (\<lambda>r. scan_status r = 0 \<and> row_id r > start_id q) count (table q)))
           (claim_rows q count))))"
proof -
  have sel0: "select_ordered p 0 t = []" for p t by (simp add: select_ordered_def)
  show ?thesis
    using assms by (simp add: get_new_scan_def claim_rows_def Let_def sel0)
qed



section \<open>The cursor never moves back\<close>

lemma put_start_id: "start_id (fst (put exc q r now)) = start_id q"
  by (simp add: put_def split: sum.splits driver_error.splits)

lemma reset_start_id: "start_id (fst (reset_unscanned_item fault q)) = start_id q"
  by (simp add: reset_unscanned_item_def)

lemma get_new_scan_start_id: "start_id (fst (get_new_scan fault q count)) = start_id q"
  by (simp add: get_new_scan_def Let_def split: list.splits)

lemma mark_result_start_id_cases:
  "start_id (fst (mark_result fault q last_id failed_list)) = start_id q
   \<or> start_id q < start_id (fst (mark_result fault q last_id failed_list))"
proof -
  have "start_id q < m" if "select_max_id (\<lambda>r. row_id r > start_id q \<and> scan_status r = 1) t = Some m" for t m
    using select_max_id_Some(1)[OF that] by auto
  then show ?thesis
    by (auto simp: mark_result_def Let_def split: option.splits)
qed

lemma exec_start_id:
  "start_id (exec q op) = start_id q
   \<or> (start_id q < start_id (exec q op) \<and> (\<exists>fault last_id failed_list. op = MarkResult fault last_id failed_list))"
proof (cases op)
  case (Put exc r now)
  then show ?thesis by (simp add: put_start_id)
next
  case (GetNewScan fault count)
  then show ?thesis by (simp add: get_new_scan_start_id)
next
  case (MarkResult fault last_id failed_list)
  then show ?thesis using mark_result_start_id_cases[of fault q last_id failed_list] by auto
next
  case (ResetUnscannedItem fault)
  then show ?thesis by (simp add: reset_start_id)
qed

lemma run_start_id: "start_id q \<le> start_id (run q ops)"
proof (induction ops arbitrary: q)
  case Nil
  then show ?case by (simp add: run_def)
next
  case (Cons op ops)
  have "start_id q \<le> start_id (exec q op)" using exec_start_id[of q op] by auto
  also have "\<dots> \<le> start_id (run (exec q op) ops)" by (rule Cons.IH)
  finally show ?case by (simp add: run_def)
qed

text \<open>
  C5. Every operation of the queue, served or failing, leaves \<open>start_id\<close> as it is or
  makes it larger, and only \<open>mark_result\<close> can make it larger; so over every sequence
  of operations \<open>start_id\<close> never decreases, from the constructed queue or from any later
  state.
\<close>

theorem start_id_monotone:
  "(start_id (exec q op) = start_id q
     \<or> (start_id q < start_id (exec q op)
          \<and> (\<exists>fault last_id failed_list. op = MarkResult fault last_id failed_list)))
   \<and> start_id q \<le> start_id (run q ops)
   \<and> start_id (run q ops) \<le> start_id (run q (ops @ ops'))"
proof -
  have "run q (ops @ ops') = run (run q ops) ops'" by (simp add: run_def)
  then show ?thesis using exec_start_id[of q op] run_start_id[of q ops] run_start_id[of "run q ops" ops']
    by simp
qed


lemmas eval_defs = run_def rasp_def put_def create_object_def next_id_def get_new_scan_def
   mark_result_def select_ordered_def update_status_def select_max_id_def select_min_id_def Let_def
   reset_unscanned_item_def fresh_queue_def

text \<open>Along the sample run the cursor is 0, then 2 after the first completion, and stays.\<close>

theorem start_id_monotone_witness:
  "map (\<lambda>n. start_id (run fresh_queue (take n S2_run))) [0, 4, 5, 6, 7, 8] = [0, 0, 0, 2, 2, 2]"
  using start_id_monotone [of fresh_queue "MarkResult None 2 []" "take 5 S2_run" "drop 5 S2_run"]
  by (simp add: S2_run_def eval_defs)

section \<open>Only the status column is rewritten\<close>

lemma payload_update_status: "map payload (update_status p v t) = map payload t"
  by (simp add: update_status_def payload_def)

lemma put_table: "\<exists>ys. table (fst (put exc q r now)) = table q @ ys"
  by (simp add: put_def create_object_def split: option.splits sum.splits driver_error.splits)

lemma get_new_scan_payload: "map payload (table (fst (get_new_scan fault q count))) = map payload (table q)"
  by (simp add: get_new_scan_def Let_def payload_update_status split: list.splits)

lemma mark_result_payload:
  "map payload (table (fst (mark_result fault q last_id failed_list))) = map payload (table q)"
  by (simp add: mark_result_def Let_def payload_update_status split: option.splits)

lemma reset_payload: "map payload (table (fst (reset_unscanned_item fault q))) = map payload (table q)"
  by (simp add: reset_unscanned_item_def payload_update_status)

lemma exec_payload: "\<exists>ys. map payload (table (exec q op)) = map payload (table q) @ ys"
proof (cases op)
  case (Put exc r now)
  obtain ys where "table (fst (put exc q r now)) = table q @ ys" using put_table by blast
  then show ?thesis using Put by simp
next
  case (GetNewScan fault count)
  then show ?thesis by (simp add: get_new_scan_payload)
next
  case (MarkResult fault last_id failed_list)
  then show ?thesis by (simp add: mark_result_payload)
next
  case (ResetUnscannedItem fault)
  then show ?thesis by (simp add: reset_payload)
qed

lemma run_payload: "\<exists>ys. map payload (table (run q ops)) = map payload (table q) @ ys"
proof (induction ops arbitrary: q)
  case Nil
  then show ?case by (simp add: run_def)
next
  case (Cons op ops)
  obtain ys where 1: "map payload (table (exec q op)) = map payload (table q) @ ys"
    using exec_payload by blast
  obtain zs where 2: "map payload (table (run (exec q op) ops)) = map payload (table (exec q op)) @ zs"
    using Cons.IH by blast
  have "run q (op # ops) = run (exec q op) ops" by (simp add: run_def)
  then show ?case using 1 2 by simp
qed

text \<open>
  C10. \<open>get_new_scan\<close>, \<open>mark_result\<close> and \<open>reset_unscanned_item\<close>, served or
  failing, leave the id, data, data\_hash and time of every row as they were, row by row;
  \<open>put\<close> only appends; so after any sequence of operations every row that existed is
  still there, in place, with the same four columns.
\<close>

theorem status_only_frame:
  "map payload (table (fst (get_new_scan fault q count))) = map payload (table q)
   \<and> map payload (table (fst (mark_result fault q last_id failed_list))) = map payload (table q)
   \<and> map payload (table (fst (reset_unscanned_item fault q))) = map payload (table q)
   \<and> take (length (table q)) (table (fst (put exc q r now))) = table q
   \<and> length (table q) \<le> length (table (run q ops))
   \<and> map payload (take (length (table q)) (table (run q ops))) = map payload (table q)"
proof -
  obtain ys where ys: "table (fst (put exc q r now)) = table q @ ys" using put_table by blast
  obtain zs where zs: "map payload (table (run q ops)) = map payload (table q) @ zs"
    using run_payload by blast
  have len: "length (table q) \<le> length (table (run q ops))"
    using arg_cong[OF zs, of length] by simp
  have "map payload (take (length (table q)) (table (run q ops)))
          = take (length (table q)) (map payload (table (run q ops)))" by (simp add: take_map)
  also have "\<dots> = map payload (table q)" by (simp add: zs)
  finally show ?thesis
    using len ys by (simp add: get_new_scan_payload mark_result_payload reset_payload)
qed

text \<open>The sample run: the three rows inserted keep their columns through dispatch and completion.\<close>

theorem status_only_frame_witness:
  "map payload (table (run fresh_queue S2_run)) = map payload (table (run fresh_queue (take 4 S2_run)))
   \<and> map payload (table (run fresh_queue S2_run))
       = [(1, ''GET /a'', ''a'', 10), (2, ''GET /b'', ''b'', 11), (3, ''GET /c'', ''c'', 13)]
   \<and> map scan_status (table (run fresh_queue S2_run)) = [SCANNED, SCANNED, FAILED]"
  using status_only_frame [of None "run fresh_queue (take 4 S2_run)" 2 2 "[]" None "rasp ''GET /a'' ''a''" 12 "drop 4 S2_run"]
  by (simp add: S2_run_def eval_defs payload_def)

section \<open>put\<close>

text \<open>
  C9. \<open>put\<close> returns False whenever the insert raises IntegrityError, whether the unique
  index on data\_hash or any other constraint raised it, and then raises nothing; it raises
  DatabaseError exactly when the insert raises another error; it returns True exactly when
  the insert raises nothing. No other outcome exists.
\<close>

theorem put_integrity_error:
  "put (Some IntegrityError) q r now = (q, Inr False)
   \<and> put (Some OtherError) q r now = (q, Inl DatabaseError)
   \<and> (snd (put exc q r now) = Inr False \<longleftrightarrow>
        exc = Some IntegrityError \<or> (exc = None \<and> get_hash r \<in> set (map data_hash (table q))))
   \<and> (snd (put exc q r now) = Inl DatabaseError \<longleftrightarrow> exc = Some OtherError)
   \<and> (snd (put exc q r now) = Inr True \<longleftrightarrow>
        exc = None \<and> get_hash r \<notin> set (map data_hash (table q)))
   \<and> snd (put exc q r now) \<in> {Inr True, Inr False, Inl DatabaseError}"
  by (cases exc; cases "the exc")
     (auto simp: put_def create_object_def split: option.splits sum.splits driver_error.splits)

text \<open>An integrity error on a fresh hash is reported as a duplicate.\<close>

theorem put_integrity_error_witness:
  "put (Some IntegrityError) fresh_queue (rasp ''GET /a'' ''a'') 10 = (fresh_queue, Inr False)
   \<and> get_hash (rasp ''GET /a'' ''a'') \<notin> set (map data_hash (table fresh_queue))
   \<and> snd (put (Some OtherError) fresh_queue (rasp ''GET /a'' ''a'') 10) = Inl DatabaseError
   \<and> snd (put None fresh_queue (rasp ''GET /a'' ''a'') 10) = Inr True"
  using put_integrity_error [of fresh_queue "rasp ''GET /a'' ''a''" 10 None]
  by (simp add: eval_defs)

text \<open>
  C6. For a record whose hash is not yet in the table, with the database serving both
  inserts: the first \<open>put\<close> returns True, the second returns False and changes nothing,
  and the table has grown by exactly one row. The second answer depends on the hash alone:
  any record with the same hash is a duplicate, and a record with a hash not in the table
  is inserted. A duplicate is a normal return, not an exception.
\<close>

theorem put_twice:
  fixes q :: NewRequestModel and r :: RaspResult and now now' :: int
  assumes fresh: "get_hash r \<notin> set (map data_hash (table q))"
  defines "first \<equiv> put None q r now"
  defines "second \<equiv> put None (fst first) r now'"
  shows "snd first = Inr True
   \<and> snd second = Inr False
   \<and> fst second = fst first
   \<and> length (table (fst second)) = length (table q) + 1
   \<and> (\<forall>r'. get_hash r' = get_hash r \<longrightarrow> put None (fst first) r' now' = (fst first, Inr False))
   \<and> (\<forall>r'. get_hash r' \<notin> set (map data_hash (table (fst first))) \<longrightarrow>
           snd (put None (fst first) r' now') = Inr True)"
  using fresh unfolding first_def second_def
  by (simp add: put_def create_object_def)

text \<open>Scenario S1: the same record twice into the empty table.\<close>

theorem put_twice_witness:
  "get_hash (rasp ''GET /a'' ''a'') \<notin> set (map data_hash (table fresh_queue))
   \<and> snd (put None fresh_queue (rasp ''GET /a'' ''a'') 10) = Inr True
   \<and> snd (put None (fst (put None fresh_queue (rasp ''GET /a'' ''a'') 10)) (rasp ''GET /a'' ''a'') 11) = Inr False
   \<and> length (table (fst (put None (fst (put None fresh_queue (rasp ''GET /a'' ''a'') 10)) (rasp ''GET /a'' ''a'') 11))) = 1"
  using put_twice [of "rasp ''GET /a'' ''a''" fresh_queue 10 11]
  by (simp add: eval_defs)

section \<open>send\_request\<close>

lemma send_loop_neg: "retry_times < 0 \<Longrightarrow> send_loop f retry_times n s = (retry_times, n, s, None)"
  by simp

lemma send_loop_success:
  "0 \<le> retry_times \<Longrightarrow> f n = Returned v \<Longrightarrow> send_loop f retry_times n s = (retry_times, Suc n, s, Some v)"
  by simp

lemma send_loop_failure:
  "0 \<le> retry_times \<Longrightarrow> failed (f n) \<Longrightarrow>
     send_loop f retry_times n s = send_loop f (retry_times - 1) (Suc n) (Suc s)"
  by (cases "f n") (simp_all add: failed_def)

declare send_loop.simps [simp del]

text \<open>With enough retries left, \<open>k\<close> failures in a row are \<open>k\<close> passes and \<open>k\<close> sleeps.\<close>

lemma send_loop_skip:
  "\<forall>j<k. failed (f (n + j)) \<Longrightarrow> int k \<le> retry_times + 1 \<Longrightarrow>
     send_loop f retry_times n s = send_loop f (retry_times - int k) (n + k) (s + k)"
proof (induction k arbitrary: retry_times n s)
  case 0
  then show ?case by simp
next
  case (Suc k)
  have f0: "failed (f n)" using Suc.prems(1) by (metis add.right_neutral zero_less_Suc)
  have r0: "0 \<le> retry_times" using Suc.prems(2) by simp
  have fs: "\<forall>j<k. failed (f (Suc n + j))" using Suc.prems(1) by (metis Suc_less_eq add_Suc_shift)
  have "send_loop f retry_times n s = send_loop f (retry_times - 1) (Suc n) (Suc s)"
    using r0 f0 by (rule send_loop_failure)
  also have "\<dots> = send_loop f (retry_times - 1 - int k) (Suc n + k) (Suc s + k)"
    using fs Suc.prems(2) by (intro Suc.IH) simp_all
  finally show ?case by (simp add: algebra_simps)
qed


lemma send_request_unknown:
  "session name = None \<Longrightarrow>
     send_request session retry_times name = \<lparr>attempts = 0, sleeps = 0, result = Inl AttributeError\<rparr>"
  by (simp add: send_request_def)

lemma send_request_success:
  assumes "session name = Some a" and "\<forall>j<k. failed (call a j)" and "call a k = Returned v"
    and "int k \<le> retry_times"
  shows "send_request session retry_times name = \<lparr>attempts = Suc k, sleeps = k, result = Inr v\<rparr>"
proof -
  have "send_loop (call a) retry_times 0 0 = send_loop (call a) (retry_times - int k) (0 + k) (0 + k)"
    using assms(2,4) by (intro send_loop_skip) simp_all
  also have "\<dots> = (retry_times - int k, Suc k, k, Some v)"
    using assms(3,4) by (simp add: send_loop_success)
  finally show ?thesis using assms(1,4) by (simp add: send_request_def)
qed

lemma send_request_exhausted:
  assumes "session name = Some a" and "\<forall>j < nat (retry_times + 1). failed (call a j)"
  shows "send_request session retry_times name =
           \<lparr>attempts = nat (retry_times + 1), sleeps = nat (retry_times + 1),
            result = Inl ScanRequestFailed\<rparr>"
proof (cases "0 \<le> retry_times")
  case True
  let ?k = "nat (retry_times + 1)"
  have "send_loop (call a) retry_times 0 0 = send_loop (call a) (retry_times - int ?k) (0 + ?k) (0 + ?k)"
    using assms(2) True by (intro send_loop_skip) simp_all
  also have "\<dots> = (-1, ?k, ?k, None)" using True by (simp add: send_loop_neg)
  finally show ?thesis using assms(1) by (simp add: send_request_def)
next
  case False
  then show ?thesis using assms(1) by (simp add: send_request_def send_loop_neg)
qed

text \<open>Every call ends in one of three ways.\<close>

lemma send_request_cases:
  "(session name = None \<and>
      send_request session retry_times name = \<lparr>attempts = 0, sleeps = 0, result = Inl AttributeError\<rparr>)
   \<or> (\<exists>a k v. session name = Some a \<and> (\<forall>j<k. failed (call a j)) \<and> call a k = Returned v
          \<and> int k \<le> retry_times
          \<and> send_request session retry_times name = \<lparr>attempts = Suc k, sleeps = k, result = Inr v\<rparr>)
   \<or> (\<exists>a. session name = Some a \<and> (\<forall>j < nat (retry_times + 1). failed (call a j))
          \<and> send_request session retry_times name =
               \<lparr>attempts = nat (retry_times + 1), sleeps = nat (retry_times + 1),
                result = Inl ScanRequestFailed\<rparr>)"
proof (cases "session name")
  case None
  then show ?thesis by (simp add: send_request_unknown)
next
  case (Some a)
  show ?thesis
  proof (cases "\<forall>j < nat (retry_times + 1). failed (call a j)")
    case True
    then show ?thesis
      using Some send_request_exhausted[where session=session and name=name and a=a
          and retry_times=retry_times] by blast
  next
    case False
    then obtain j0 where j0: "j0 < nat (retry_times + 1)" "\<not> failed (call a j0)" by blast
    define k where "k = (LEAST j. \<not> failed (call a j))"
    have nk: "\<not> failed (call a k)" unfolding k_def using j0(2) by (rule LeastI)
    have "k \<le> j0" unfolding k_def using j0(2) by (rule Least_le)
    then have kr: "int k \<le> retry_times" using j0(1) by linarith
    have before: "\<forall>j<k. failed (call a j)"
      using not_less_Least[of _ "\<lambda>j. \<not> failed (call a j)"] unfolding k_def by blast
    obtain v where v: "call a k = Returned v" using nk by (cases "call a k") (simp_all add: failed_def)
    show ?thesis
      using Some before v kr send_request_success[where session=session and name=name
          and a=a and k=k and v=v and retry_times=retry_times] by blast
  qed
qed

text \<open>
  C7. For a request whose method is a verb of the session, \<open>send_request\<close> makes at
  most \<open>retry_times + 1\<close> passes. If the pass number \<open>k\<close> (from 0) is the first that
  succeeds and \<open>k \<le> retry_times\<close>, it returns that response after \<open>k + 1\<close> passes and
  \<open>k\<close> sleeps. If the first \<open>retry_times + 1\<close> passes all fail, it raises
  \<^verbatim>\<open>ScanRequestFailed\<close> after exactly that many passes. It ends in no other way: the
  variable \<open>response\<close> is never read unbound.
\<close>

theorem send_request_retries:
  fixes session :: "string \<rightharpoonup> attribute" and retry_times :: int
  assumes verb: "session name = Some (HttpVerb transport)"
  defines "s \<equiv> send_request session retry_times name"
  shows "attempts s \<le> nat (retry_times + 1)
    \<and> (\<forall>k v. (\<forall>j<k. failed (transport j)) \<and> transport k = Returned v \<and> int k \<le> retry_times
          \<longrightarrow> s = \<lparr>attempts = Suc k, sleeps = k, result = Inr v\<rparr>)
    \<and> ((\<forall>j < nat (retry_times + 1). failed (transport j))
          \<longrightarrow> s = \<lparr>attempts = nat (retry_times + 1), sleeps = nat (retry_times + 1),
                   result = Inl ScanRequestFailed\<rparr>)
    \<and> (result s = Inl ScanRequestFailed \<or> (\<exists>v. result s = Inr v))"
proof (intro conjI allI impI)
  show "attempts s \<le> nat (retry_times + 1)"
    using send_request_cases[of session name retry_times] verb unfolding s_def
    by (elim disjE exE conjE) simp_all
  show "result s = Inl ScanRequestFailed \<or> (\<exists>v. result s = Inr v)"
    using send_request_cases[of session name retry_times] verb unfolding s_def
    by (elim disjE exE conjE) simp_all
next
  fix k v
  assume "(\<forall>j<k. failed (transport j)) \<and> transport k = Returned v \<and> int k \<le> retry_times"
  then show "s = \<lparr>attempts = Suc k, sleeps = k, result = Inr v\<rparr>"
    unfolding s_def using verb
    by (intro send_request_success[where session=session and name=name
          and a="HttpVerb transport"]) simp_all
next
  assume "\<forall>j < nat (retry_times + 1). failed (transport j)"
  then show "s = \<lparr>attempts = nat (retry_times + 1), sleeps = nat (retry_times + 1),
                   result = Inl ScanRequestFailed\<rparr>"
    unfolding s_def using verb
    by (intro send_request_exhausted[where session=session and name=name
          and a="HttpVerb transport"]) simp_all
qed

text \<open>
  Scenario S5: with \<open>retry_times = 2\<close> the third pass returns status 200; with
  \<open>retry_times = 1\<close> the call raises; with \<open>retry_times = 0\<close> one failing pass raises.
\<close>

lemma S5_fail: "j < 2 \<Longrightarrow> failed (S5_transport j)"
  by (simp add: S5_transport_def failed_def)

theorem send_request_retries_witness:
  "ClientSession S5_transport ''get'' = Some (HttpVerb S5_transport)
   \<and> send_request (ClientSession S5_transport) 2 ''get'' = \<lparr>attempts = 3, sleeps = 2, result = Inr ok200\<rparr>
   \<and> status ok200 = 200
   \<and> send_request (ClientSession S5_transport) 1 ''get''
       = \<lparr>attempts = 2, sleeps = 2, result = Inl ScanRequestFailed\<rparr>
   \<and> send_request (ClientSession (\<lambda>n. ClientError)) 0 ''get''
       = \<lparr>attempts = 1, sleeps = 1, result = Inl ScanRequestFailed\<rparr>"
proof -
  have g: "ClientSession t ''get'' = Some (HttpVerb t)" for t by (simp add: ClientSession_def)
  have two: "\<forall>j<2. failed (S5_transport j)" by (simp add: S5_fail)
  have three: "S5_transport 2 = Returned ok200" by (simp add: S5_transport_def)
  have a: "send_request (ClientSession S5_transport) 2 ''get'' = \<lparr>attempts = 3, sleeps = 2, result = Inr ok200\<rparr>"
    using send_request_retries [where session="ClientSession S5_transport" and name="''get''"
        and transport=S5_transport and retry_times=2] g two three
    by (auto simp: numeral_3_eq_3 numeral_2_eq_2)
  have b: "send_request (ClientSession S5_transport) 1 ''get''
       = \<lparr>attempts = 2, sleeps = 2, result = Inl ScanRequestFailed\<rparr>"
    using send_request_retries [where session="ClientSession S5_transport" and name="''get''"
        and transport=S5_transport and retry_times=1] g two by simp
  have c: "send_request (ClientSession (\<lambda>n. ClientError)) 0 ''get''
       = \<lparr>attempts = 1, sleeps = 1, result = Inl ScanRequestFailed\<rparr>"
    using send_request_retries [where session="ClientSession (\<lambda>n. ClientError)"
        and name="''get''" and transport="\<lambda>n. ClientError" and retry_times=0] g
    by (simp add: failed_def)
  show ?thesis using g a b c by (simp add: ok200_def)
qed

text \<open>
  C8, as the code has it. A method name that is not an attribute of the session makes
  \<open>send_request\<close> raise \<^verbatim>\<open>AttributeError\<close> from \<^verbatim>\<open>getattr\<close>, before any pass, sleep
  or retry.
\<close>

theorem send_request_unknown_attribute:
  "session name = None \<Longrightarrow>
     send_request session retry_times name
       = \<lparr>attempts = 0, sleeps = 0, result = Inl AttributeError\<rparr>"
  by (rule send_request_unknown)

theorem send_request_unknown_attribute_witness:
  "ClientSession S5_transport ''brew'' = None
   \<and> send_request (ClientSession S5_transport) 2 ''brew''
       = \<lparr>attempts = 0, sleeps = 0, result = Inl AttributeError\<rparr>"
proof -
  have n: "ClientSession S5_transport ''brew'' = None" by (simp add: ClientSession_def)
  show ?thesis
    using n send_request_unknown_attribute [where session="ClientSession S5_transport"
        and name="''brew''" and retry_times=2] by simp
qed

text \<open>
  C8 as stated fails: \<^verbatim>\<open>close\<close> is an attribute of the session and not a verb; with
  \<open>retry_times = 1\<close> the call goes through two passes and two sleeps and raises
  \<^verbatim>\<open>ScanRequestFailed\<close>, not an error raised before the first pass.
\<close>

theorem send_request_not_verb_counterexample:
  "ClientSession S5_transport ''close'' = Some NotVerb
   \<and> send_request (ClientSession S5_transport) 1 ''close''
       = \<lparr>attempts = 2, sleeps = 2, result = Inl ScanRequestFailed\<rparr>"
proof -
  have n: "ClientSession S5_transport ''close'' = Some NotVerb" by (simp add: ClientSession_def)
  have "\<forall>j < nat (1 + 1). failed (call NotVerb j)" by (simp add: failed_def)
  with n send_request_exhausted[where session="ClientSession S5_transport"
        and name="''close''" and a=NotVerb and retry_times=1]
  show ?thesis by simp
qed

section \<open>Dispatch in id order\<close>

lemma filter_mem_take_filter:
  "distinct xs \<Longrightarrow> filter (\<lambda>x. x \<in> set (take n (filter E xs))) xs = take n (filter E xs)"
proof (induction xs arbitrary: n)
  case Nil
  then show ?case by simp
next
  case (Cons a xs)
  have a: "a \<notin> set xs" and d: "distinct xs" using Cons.prems by simp_all
  have sub: "set (take m (filter E xs)) \<subseteq> set xs" for m
    using set_take_subset[of m "filter E xs"] by auto
  show ?case
  proof (cases "E a")
    case False
    have "a \<notin> set (take n (filter E xs))" using a sub by blast
    then show ?thesis using False Cons.IH[OF d] by simp
  next
    case True
    show ?thesis
    proof (cases n)
      case 0
      then show ?thesis by simp
    next
      case (Suc m)
      have "filter (\<lambda>x. x = a \<or> x \<in> set (take m (filter E xs))) xs
              = filter (\<lambda>x. x \<in> set (take m (filter E xs))) xs"
        using a by (intro filter_cong) auto
      then show ?thesis using True Suc Cons.IH[OF d, of m] by simp
    qed
  qed
qed

lemma update_status_by_ids:
  assumes "distinct (map row_id t)" and "set xs \<subseteq> set t"
  shows "update_status (\<lambda>r. row_id r \<in> set (map row_id xs)) v t = update_status (\<lambda>r. r \<in> set xs) v t"
proof -
  have inj: "inj_on row_id (set t)" using assms(1) by (simp add: distinct_map)
  have "row_id r \<in> set (map row_id xs) \<longleftrightarrow> r \<in> set xs" if "r \<in> set t" for r
    using that assms(2) inj by (auto dest: inj_onD)
  then show ?thesis by (simp add: update_status_def)
qed

lemma sort_key_strict: "sorted_wrt (<) (map row_id xs) \<Longrightarrow> sort_key row_id xs = xs"
  by (intro sort_key_id_if_sorted) (simp add: strict_sorted_iff)

lemma strict_filter: "sorted_wrt (<) (map row_id xs) \<Longrightarrow> sorted_wrt (<) (map row_id (filter p xs))"
  by (simp add: sorted_wrt_map sorted_wrt_filter)

lemma strict_take: "sorted_wrt (<) (map row_id xs) \<Longrightarrow> sorted_wrt (<) (map row_id (take n xs))"
  by (simp add: sorted_wrt_map sorted_wrt_take)

text \<open>
  On a table scanned in id order, with nothing in progress above the cursor, a served
  \<open>get_new_scan(count)\<close> claims and returns the first \<open>count\<close> waiting records.
\<close>

lemma get_new_scan_in_order:
  assumes srt: "sorted_wrt (<) (map row_id (table q))"
    and idle: "\<forall>r\<in>set (table q). start_id q < row_id r \<longrightarrow> scan_status r \<noteq> 2"
  shows "get_new_scan None q count =
           (q\<lparr>table := update_status (\<lambda>r. r \<in> set (take count (waiting q))) 2 (table q)\<rparr>,
            Inr (map (\<lambda>r. (row_id r, data r)) (take count (waiting q))))"
proof (cases "waiting q")
  case Nil
  then have "get_new_scan None q count = (q, Inr [])"
    unfolding waiting_def by (rule get_new_scan_empty)
  moreover have "update_status (\<lambda>r. False) 2 (table q) = table q"
    by (simp add: update_status_def)
  ultimately show ?thesis using Nil by simp
next
  case (Cons d ds)
  let ?C = "take count (waiting q)"
  let ?h = "\<lambda>r. if r \<in> set ?C then r\<lparr>scan_status := 2\<rparr> else r"
  have pk: "distinct (map row_id (table q))" using srt by (simp add: strict_sorted_iff)
  then have dt: "distinct (table q)" by (simp add: distinct_map)
  have wsorted: "sorted_wrt (<) (map row_id (waiting q))"
    unfolding waiting_def using srt by (rule strict_filter)
  have same: "filter (\<lambda>r. scan_status r = 0 \<and> row_id r > start_id q) (table q) = waiting q"
    unfolding waiting_def by (rule filter_cong) auto
  have claimed: "select_ordered (\<lambda>r. scan_status r = 0 \<and> row_id r > start_id q) count (table q) = ?C"
    by (simp add: select_ordered_def same sort_key_strict[OF wsorted])
  have Csub: "set ?C \<subseteq> set (waiting q)" by (rule set_take_subset)
  then have Csub': "set ?C \<subseteq> set (table q)" by (auto simp: waiting_def)
  have "claim_rows q count = update_status (\<lambda>r. row_id r \<in> set (map row_id ?C)) 2 (table q)"
    by (simp only: claim_rows_def claimed)
  also have "\<dots> = update_status (\<lambda>r. r \<in> set ?C) 2 (table q)"
    using pk Csub' by (rule update_status_by_ids)
  finally have t'': "claim_rows q count = update_status (\<lambda>r. r \<in> set ?C) 2 (table q)" .
  then have t': "claim_rows q count = map ?h (table q)" by (simp add: update_status_def)
  have dmin: "row_id d \<le> row_id r" if "r \<in> set (waiting q)" for r
    using wsorted that unfolding Cons by auto
  have dgt: "start_id q < row_id d"
  proof -
    have "d \<in> set (waiting q)" by (simp add: Cons)
    then show ?thesis by (simp add: waiting_def)
  qed
  have "filter (\<lambda>r. row_id d \<le> row_id r \<and> scan_status r = 2) (map ?h (table q))
          = map ?h (filter (\<lambda>r. r \<in> set ?C) (table q))"
  proof -
    have "(row_id d \<le> row_id (?h r) \<and> scan_status (?h r) = 2) \<longleftrightarrow> r \<in> set ?C"
      if "r \<in> set (table q)" for r
    proof (cases "r \<in> set ?C")
      case True
      then show ?thesis using dmin Csub by auto
    next
      case False
      have "\<not> (row_id d \<le> row_id r \<and> scan_status r = 2)" using idle that dgt by force
      then show ?thesis using False by simp
    qed
    then have "filter ((\<lambda>r. row_id d \<le> row_id r \<and> scan_status r = 2) \<circ> ?h) (table q)
                 = filter (\<lambda>r. r \<in> set ?C) (table q)"
      by (intro filter_cong) (simp_all add: comp_def)
    then show ?thesis by (simp only: filter_map)
  qed
  also have "\<dots> = map ?h ?C"
    unfolding waiting_def using filter_mem_take_filter[OF dt] by simp
  also have "\<dots> = map (\<lambda>r. r\<lparr>scan_status := 2\<rparr>) ?C" by (rule map_cong) simp_all
  finally have flt: "filter (\<lambda>r. row_id d \<le> row_id r \<and> scan_status r = 2) (claim_rows q count)
          = map (\<lambda>r. r\<lparr>scan_status := 2\<rparr>) ?C" by (simp only: t')
  have "sorted_wrt (<) (map row_id (map (\<lambda>r. r\<lparr>scan_status := 2\<rparr>) ?C))"
    using strict_take[OF wsorted, of count] by (simp add: comp_def)
  then have lines: "select_ordered (\<lambda>r. row_id r \<ge> row_id d \<and> scan_status r = 2) (length ?C)
                      (claim_rows q count) = map (\<lambda>r. r\<lparr>scan_status := 2\<rparr>) ?C"
    by (simp add: select_ordered_def flt sort_key_strict)
  have "filter (\<lambda>r. row_id r > start_id q \<and> scan_status r = 0) (table q) = d # ds"
    using Cons by (simp add: waiting_def)
  from get_new_scan_Cons[OF this, of count]
  have "get_new_scan None q count =
          (q\<lparr>table := claim_rows q count\<rparr>,
           Inr (map (\<lambda>line. (row_id line, data line)) (map (\<lambda>r. r\<lparr>scan_status := 2\<rparr>) ?C)))"
    by (simp only: claimed lines)
  then show ?thesis by (simp add: t'' comp_def)
qed


section \<open>Construction and startup\<close>

lemma init_start_id_eq:
  "init_start_id None t =
     Inr (if \<exists>r\<in>set t. scan_status r \<noteq> SCANNED
          then Min (row_id ` {r \<in> set t. scan_status r \<noteq> SCANNED}) - 1 else 0)"
proof (cases "select_min_id (\<lambda>r. scan_status r \<noteq> 1) t")
  case None
  then have "\<forall>r\<in>set t. \<not> scan_status r \<noteq> 1" by (simp only: select_min_id_None)
  then show ?thesis using None by (simp add: init_start_id_def)
next
  case (Some m)
  let ?p = "\<lambda>r. scan_status r \<noteq> SCANNED"
  from select_min_id_Some[OF Some] have ex: "\<exists>r\<in>set t. ?p r \<and> row_id r = m"
    and lb: "\<forall>r\<in>set t. ?p r \<longrightarrow> m \<le> row_id r" by blast+
  have "Min (row_id ` {r \<in> set t. ?p r}) = m"
  proof (rule Min_eqI)
    show "finite (row_id ` {r \<in> set t. ?p r})" by simp
    show "\<And>y. y \<in> row_id ` {r \<in> set t. ?p r} \<Longrightarrow> m \<le> y" using lb by auto
    show "m \<in> row_id ` {r \<in> set t. ?p r}" using ex by auto
  qed
  moreover have "\<exists>r\<in>set t. ?p r" using ex by blast
  ultimately show ?thesis using Some by (simp add: init_start_id_def)
qed

lemma init_start_id_below:
  assumes "init_start_id None t = Inr s" and "r \<in> set t" and "scan_status r \<noteq> SCANNED"
  shows "s < row_id r"
proof (cases "select_min_id (\<lambda>r. scan_status r \<noteq> 1) t")
  case None
  then have "\<forall>r\<in>set t. \<not> scan_status r \<noteq> 1" by (simp only: select_min_id_None)
  then show ?thesis using assms by simp
next
  case (Some m)
  from select_min_id_Some(2)[OF Some] assms(2,3) have "m \<le> row_id r" by simp
  moreover have "s = m - 1" using assms(1) Some by (simp add: init_start_id_def)
  ultimately show ?thesis by simp
qed

lemma init_start_id_scanned:
  assumes "init_start_id None t = Inr s" and "r \<in> set t" and "row_id r \<le> s"
  shows "scan_status r = SCANNED"
  using init_start_id_below[OF assms(1,2)] assms(3) by force

lemma reset_twice:
  "update_status (\<lambda>r. scan_status r > 1) 0 (update_status (\<lambda>r. scan_status r > 1) 0 t)
     = update_status (\<lambda>r. scan_status r > 1) 0 t"
  by (simp add: update_status_def)

text \<open>
  C3. On a table whose ids are positive (auto-increment ids start at 1), construction
  served by the database sets \<open>start_id\<close> to \<open>max(0, m - 1)\<close> for the least id \<open>m\<close> of a
  record whose status is not SCANNED, and to 0 when there is none. Startup then runs
  \<open>reset_unscanned_item\<close> once: every record that was IN\_PROGRESS or FAILED is UNSCANNED
  and lies above \<open>start_id\<close>, every record that was UNSCANNED or SCANNED is as it was, and
  a second reset would change nothing. When the table is scanned in id order, the next
  \<open>get_new_scan\<close> with room for all waiting records returns them, and every record that
  was IN\_PROGRESS or FAILED is among them.
\<close>

theorem startup_spec:
  fixes t :: "ResultList list"
  assumes ids: "\<forall>r\<in>set t. 0 < row_id r"
  defines "s0 \<equiv> (if \<exists>r\<in>set t. scan_status r \<noteq> SCANNED
                  then max 0 (Min (row_id ` {r \<in> set t. scan_status r \<noteq> SCANNED}) - 1) else 0)"
  shows "new_request_model None t = Inr \<lparr>table = t, start_id = s0\<rparr>
    \<and> (\<exists>q. startup None None t = Inr q
         \<and> start_id q = s0
         \<and> length (table q) = length t
         \<and> (\<forall>i<length t.
               (scan_status (t ! i) = IN_PROGRESS \<or> scan_status (t ! i) = FAILED \<longrightarrow>
                   table q ! i = (t ! i)\<lparr>scan_status := UNSCANNED\<rparr> \<and> start_id q < row_id (t ! i))
             \<and> (scan_status (t ! i) = UNSCANNED \<or> scan_status (t ! i) = SCANNED \<longrightarrow>
                   table q ! i = t ! i))
         \<and> reset_unscanned_item None q = (q, Inr ())
         \<and> (sorted_wrt (<) (map row_id t) \<longrightarrow>
              (\<forall>count\<ge>length (waiting q).
                 snd (get_new_scan None q count) = Inr (map (\<lambda>r. (row_id r, data r)) (waiting q))
                 \<and> (\<forall>i<length t.
                      scan_status (t ! i) = IN_PROGRESS \<or> scan_status (t ! i) = FAILED \<longrightarrow>
                        (row_id (t ! i), data (t ! i)) \<in> set (map (\<lambda>r. (row_id r, data r)) (waiting q))))))"
proof -
  let ?p = "\<lambda>r. scan_status r \<noteq> SCANNED"
  let ?q = "\<lparr>table = update_status (\<lambda>r. scan_status r > 1) 0 t, start_id = s0\<rparr>"
  have "0 < Min (row_id ` {r \<in> set t. ?p r})" if "\<exists>r\<in>set t. ?p r"
  proof -
    have "Min (row_id ` {r \<in> set t. ?p r}) \<in> row_id ` {r \<in> set t. ?p r}"
      using that by (intro Min_in) auto
    then show ?thesis using ids by auto
  qed
  then have s0: "init_start_id None t = Inr s0"
    unfolding s0_def by (simp add: init_start_id_eq)
  then have new: "new_request_model None t = Inr \<lparr>table = t, start_id = s0\<rparr>"
    by (simp add: new_request_model_def)
  then have st: "startup None None t = Inr ?q"
    by (simp add: startup_def reset_unscanned_item_def)
  have rows: "(scan_status (t ! i) = IN_PROGRESS \<or> scan_status (t ! i) = FAILED \<longrightarrow>
                   table ?q ! i = (t ! i)\<lparr>scan_status := UNSCANNED\<rparr> \<and> start_id ?q < row_id (t ! i))
             \<and> (scan_status (t ! i) = UNSCANNED \<or> scan_status (t ! i) = SCANNED \<longrightarrow>
                   table ?q ! i = t ! i)" if "i < length t" for i
  proof -
    have "s0 < row_id (t ! i)" if "scan_status (t ! i) \<noteq> SCANNED"
      using s0 _ that by (rule init_start_id_below) (simp add: \<open>i < length t\<close>)
    then show ?thesis using that by (auto simp: nth_update_status)
  qed
  have again: "reset_unscanned_item None ?q = (?q, Inr ())"
    by (simp add: reset_unscanned_item_def reset_twice)
  have disp: "snd (get_new_scan None ?q count) = Inr (map (\<lambda>r. (row_id r, data r)) (waiting ?q))
                 \<and> (\<forall>i<length t.
                      scan_status (t ! i) = IN_PROGRESS \<or> scan_status (t ! i) = FAILED \<longrightarrow>
                        (row_id (t ! i), data (t ! i)) \<in> set (map (\<lambda>r. (row_id r, data r)) (waiting ?q)))"
    if srt: "sorted_wrt (<) (map row_id t)" and cnt: "length (waiting ?q) \<le> count" for count
  proof
    have 1: "sorted_wrt (<) (map row_id (table ?q))" using srt by (simp add: row_id_update_status)
    have 2: "\<forall>r\<in>set (table ?q). start_id ?q < row_id r \<longrightarrow> scan_status r \<noteq> 2"
      by (auto simp: update_status_def)
    show "snd (get_new_scan None ?q count) = Inr (map (\<lambda>r. (row_id r, data r)) (waiting ?q))"
      using cnt by (simp add: get_new_scan_in_order[OF 1 2])
    show "\<forall>i<length t. scan_status (t ! i) = IN_PROGRESS \<or> scan_status (t ! i) = FAILED \<longrightarrow>
            (row_id (t ! i), data (t ! i)) \<in> set (map (\<lambda>r. (row_id r, data r)) (waiting ?q))"
    proof (intro allI impI)
      fix i assume i: "i < length t"
        and "scan_status (t ! i) = IN_PROGRESS \<or> scan_status (t ! i) = FAILED"
      with rows[OF i] have eq: "table ?q ! i = (t ! i)\<lparr>scan_status := UNSCANNED\<rparr>"
        and gt: "start_id ?q < row_id (t ! i)" by blast+
      have "table ?q ! i \<in> set (table ?q)" using i by (intro nth_mem) (simp add: length_update_status)
      then have "(t ! i)\<lparr>scan_status := UNSCANNED\<rparr> \<in> set (waiting ?q)"
        using eq gt by (simp add: waiting_def)
      then have "(\<lambda>r. (row_id r, data r)) ((t ! i)\<lparr>scan_status := UNSCANNED\<rparr>)
                   \<in> set (map (\<lambda>r. (row_id r, data r)) (waiting ?q))" by (simp only: set_map) (rule imageI)
      then show "(row_id (t ! i), data (t ! i)) \<in> set (map (\<lambda>r. (row_id r, data r)) (waiting ?q))"
        by simp
    qed
  qed
  show ?thesis
  proof (intro conjI exI[of _ ?q] allI impI)
    show "new_request_model None t = Inr \<lparr>table = t, start_id = s0\<rparr>" by (rule new)
    show "startup None None t = Inr ?q" by (rule st)
    show "start_id ?q = s0" by simp
    show "length (table ?q) = length t" by (simp add: length_update_status)
    show "reset_unscanned_item None ?q = (?q, Inr ())" by (rule again)
  qed (use rows disp in blast)+
qed

text \<open>
  Two instances: the table left by an earlier process (cursor 1, ids 2, 3, 4 dispatched
  next), and scenario S4 (ids 1 to 3 in progress at the crash; cursor 0, ids 1, 2, 3
  dispatched again).
\<close>

theorem startup_spec_witness:
  "list_all (\<lambda>r. 0 < row_id r) restart_table \<and> sorted_wrt (<) (map row_id restart_table)
   \<and> new_request_model None restart_table = Inr \<lparr>table = restart_table, start_id = 1\<rparr>
   \<and> startup None None restart_table
        = Inr \<lparr>table = [row 1 1, row 2 0, row 3 0, row 4 0, row 5 1], start_id = 1\<rparr>
   \<and> snd (get_new_scan None \<lparr>table = [row 1 1, row 2 0, row 3 0, row 4 0, row 5 1], start_id = 1\<rparr> 3)
        = Inr [(2, ''d''), (3, ''d''), (4, ''d'')]
   \<and> startup None None [row 1 2, row 2 2, row 3 2]
        = Inr \<lparr>table = [row 1 0, row 2 0, row 3 0], start_id = 0\<rparr>
   \<and> snd (get_new_scan None \<lparr>table = [row 1 0, row 2 0, row 3 0], start_id = 0\<rparr> 3)
        = Inr [(1, ''d''), (2, ''d''), (3, ''d'')]"
  using startup_spec [of restart_table] startup_spec [of "[row 1 2, row 2 2, row 3 2]"]
  by (simp add: restart_table_def row_def startup_def new_request_model_def init_start_id_def
       select_min_id_def reset_unscanned_item_def update_status_def get_new_scan_def
       select_ordered_def Let_def)

section \<open>The cursor invariant\<close>

lemma next_id_Max: "next_id t = Max (set (0 # map row_id t)) + 1"
  by (simp only: next_id_def fold_max_Max)

lemma next_id_gt: "r \<in> set t \<Longrightarrow> row_id r < next_id t"
proof -
  assume "r \<in> set t"
  then have "row_id r \<in> set (0 # map row_id t)" by simp
  then have "row_id r \<le> Max (set (0 # map row_id t))" by (intro Max_ge) simp_all
  then show ?thesis by (simp only: next_id_Max)
qed

lemma next_id_pos: "0 < next_id t"
proof -
  have "0 \<le> Max (set (0 # map row_id t))" by (intro Max_ge) simp_all
  then show ?thesis by (simp only: next_id_Max)
qed

lemma next_id_update_status: "next_id (update_status p v t) = next_id t"
  by (simp add: next_id_def row_id_update_status)

lemma next_id_append: "next_id t \<le> next_id (t @ [r])"
proof -
  have "Max (set (0 # map row_id t)) \<le> Max (set (0 # map row_id (t @ [r])))"
    by (intro Max_mono) auto
  then show ?thesis by (simp only: next_id_Max)
qed

lemma set_update_status:
  "set (update_status p v t) = (\<lambda>r. if p r then r\<lparr>scan_status := v\<rparr> else r) ` set t"
  by (simp add: update_status_def)

text \<open>An update that only touches ids above the cursor keeps the invariant.\<close>

lemma cursor_inv_update:
  assumes "cursor_inv q" and "\<forall>r\<in>set (table q). p r \<longrightarrow> start_id q < row_id r"
  shows "cursor_inv (q\<lparr>table := update_status p v (table q)\<rparr>)"
  using assms by (auto simp: cursor_inv_def set_update_status)

lemma cursor_ok_update:
  assumes "cursor_ok q" and "\<forall>r\<in>set (table q). p r \<longrightarrow> start_id q < row_id r"
  shows "cursor_ok (q\<lparr>table := update_status p v (table q)\<rparr>)"
  using assms cursor_inv_update[of q p v] by (simp add: cursor_ok_def next_id_update_status)

lemma put_cursor_ok: "cursor_ok q \<Longrightarrow> cursor_ok (fst (put exc q r now))"
proof -
  assume ok: "cursor_ok q"
  let ?new = "\<lparr>row_id = next_id (table q), data = dump r, data_hash = get_hash r,
               scan_status = 0, time = now\<rparr>"
  have "cursor_ok (q\<lparr>table := table q @ [?new]\<rparr>)"
    using ok next_id_append[of "table q" ?new] by (auto simp: cursor_ok_def cursor_inv_def)
  then show ?thesis using ok
    by (simp add: put_def create_object_def split: option.splits sum.splits driver_error.splits)
qed

lemma claim_rows_cursor_ok: "cursor_ok q \<Longrightarrow> cursor_ok (q\<lparr>table := claim_rows q count\<rparr>)"
proof -
  assume ok: "cursor_ok q"
  let ?C = "select_ordered (\<lambda>r. scan_status r = 0 \<and> row_id r > start_id q) count (table q)"
  have "\<forall>r\<in>set (table q). row_id r \<in> set (map row_id ?C) \<longrightarrow> start_id q < row_id r"
    using select_ordered_subset[of "\<lambda>r. scan_status r = 0 \<and> row_id r > start_id q" count "table q"]
    by auto
  from cursor_ok_update[OF ok this] show ?thesis by (simp add: claim_rows_def)
qed

lemma get_new_scan_cursor_ok: "cursor_ok q \<Longrightarrow> cursor_ok (fst (get_new_scan fault q count))"
proof -
  assume ok: "cursor_ok q"
  have "fst (get_new_scan fault q count) = q
        \<or> fst (get_new_scan fault q count) = q\<lparr>table := claim_rows q count\<rparr>"
    by (simp add: get_new_scan_def claim_rows_def Let_def split: list.splits)
  then show ?thesis using ok claim_rows_cursor_ok[OF ok] by auto
qed

lemma reset_cursor_ok:
  assumes ok: "cursor_ok q" and adm: "admissible q (ResetUnscannedItem fault)"
  shows "cursor_ok (fst (reset_unscanned_item fault q))"
proof -
  have "\<forall>r\<in>set (table q). scan_status r > 1 \<longrightarrow> start_id q < row_id r"
    using ok adm by (fastforce simp: cursor_ok_def cursor_inv_def)
  from cursor_ok_update[OF ok this] show ?thesis using ok by (simp add: reset_unscanned_item_def)
qed


lemma marked_map:
  "marked q last_id failed_list =
     map (\<lambda>r. if row_id r \<le> last_id \<and> row_id r > start_id q \<and> row_id r \<in> set failed_list
                  then r\<lparr>scan_status := 3\<rparr>
                else if row_id r \<le> last_id \<and> row_id r > start_id q \<and> scan_status r = 2
                  then r\<lparr>scan_status := 1\<rparr>
                else r) (table q)"
  by (auto simp: marked_def update_status_def)

lemma mark_result_state:
  "fst (mark_result fault q last_id failed_list) = q
   \<or> fst (mark_result fault q last_id failed_list)
        = q\<lparr>table := update_status (\<lambda>r. row_id r \<le> last_id \<and> row_id r > start_id q
                                         \<and> row_id r \<in> set failed_list) 3 (table q)\<rparr>
   \<or> fst (mark_result fault q last_id failed_list) = q\<lparr>table := marked q last_id failed_list\<rparr>
   \<or> (start_id q < last_id
        \<and> (\<exists>m. select_max_id (\<lambda>r. row_id r > start_id q \<and> scan_status r = 1)
                   (marked q last_id failed_list) = Some m
              \<and> fst (mark_result fault q last_id failed_list)
                   = q\<lparr>table := marked q last_id failed_list, start_id := m\<rparr>))"
  by (simp add: mark_result_def marked_def Let_def split: option.splits)

lemma marked_cursor_ok:
  assumes ok: "cursor_ok q"
  shows "cursor_ok (q\<lparr>table := update_status (\<lambda>r. row_id r \<le> last_id \<and> row_id r > start_id q
                                         \<and> row_id r \<in> set failed_list) 3 (table q)\<rparr>)"
    and "cursor_ok (q\<lparr>table := marked q last_id failed_list\<rparr>)"
proof -
  let ?q1 = "q\<lparr>table := update_status (\<lambda>r. row_id r \<le> last_id \<and> row_id r > start_id q
                                         \<and> row_id r \<in> set failed_list) 3 (table q)\<rparr>"
  show 1: "cursor_ok ?q1" using ok by (rule cursor_ok_update) simp
  have "cursor_ok (?q1\<lparr>table := update_status (\<lambda>r. row_id r \<le> last_id \<and> row_id r > start_id ?q1
                                         \<and> scan_status r = 2) 1 (table ?q1)\<rparr>)"
    using 1 by (rule cursor_ok_update) simp
  then show "cursor_ok (q\<lparr>table := marked q last_id failed_list\<rparr>)" by (simp add: marked_def)
qed

lemma mark_result_advance_cursor_ok:
  assumes ok: "cursor_ok q" and adm: "admissible q (MarkResult fault last_id failed_list)"
    and lt: "start_id q < last_id"
    and mx: "select_max_id (\<lambda>r. row_id r > start_id q \<and> scan_status r = 1)
               (marked q last_id failed_list) = Some m"
  shows "cursor_ok (q\<lparr>table := marked q last_id failed_list, start_id := m\<rparr>)"
proof -
  define g :: "ResultList \<Rightarrow> ResultList" where "g = (\<lambda>r. if row_id r \<le> last_id \<and> row_id r > start_id q \<and> row_id r \<in> set failed_list
                  then r\<lparr>scan_status := 3\<rparr>
                else if row_id r \<le> last_id \<and> row_id r > start_id q \<and> scan_status r = 2
                  then r\<lparr>scan_status := 1\<rparr>
                else r)"
  have mk: "marked q last_id failed_list = map g (table q)"
    unfolding g_def by (rule marked_map)
  have idg: "row_id (g r) = row_id r" for r by (simp add: g_def)
  have inv: "\<And>r. r \<in> set (table q) \<Longrightarrow> row_id r \<le> start_id q \<Longrightarrow>
               scan_status r = 1 \<or> scan_status r = 3"
    using ok by (simp add: cursor_ok_def cursor_inv_def)
  have a: "\<And>r. r \<in> set (table q) \<Longrightarrow> start_id q < row_id r \<Longrightarrow> row_id r \<le> last_id \<Longrightarrow>
             row_id r \<in> set failed_list \<or> scan_status r = 1 \<or> scan_status r = 2 \<or> scan_status r = 3"
    and b: "\<And>r. r \<in> set (table q) \<Longrightarrow> last_id < row_id r \<Longrightarrow> scan_status r \<noteq> 1"
    using adm lt by auto
  from select_max_id_Some(1)[OF mx] obtain r0 where r0: "r0 \<in> set (table q)"
    and r0s: "scan_status (g r0) = 1" and r0m: "row_id (g r0) = m"
    by (auto simp: mk)
  have m: "row_id r0 = m" using r0m by (simp only: idg)
  have ml: "m \<le> last_id"
  proof (rule ccontr)
    assume "\<not> m \<le> last_id"
    then have "last_id < row_id r0" using m by simp
    then show False using b[OF r0] r0s by (simp add: g_def)
  qed
  have fin: "scan_status (g r) = 1 \<or> scan_status (g r) = 3"
    if r: "r \<in> set (table q)" and le: "row_id r \<le> m" for r
  proof (cases "row_id r \<le> start_id q")
    case True
    then show ?thesis using inv[OF r] by (simp add: g_def)
  next
    case False
    then have "start_id q < row_id r" "row_id r \<le> last_id" using le ml by simp_all
    then show ?thesis using a[OF r] by (auto simp: g_def)
  qed
  have "\<forall>r'\<in>set (map g (table q)). row_id r' \<le> m \<longrightarrow> scan_status r' = 1 \<or> scan_status r' = 3"
  proof (intro ballI impI)
    fix r' assume "r' \<in> set (map g (table q))" and le: "row_id r' \<le> m"
    then obtain r where r: "r \<in> set (table q)" and eq: "r' = g r" by auto
    have "row_id r \<le> m" using le by (simp only: eq idg)
    from fin[OF r this] show "scan_status r' = 1 \<or> scan_status r' = 3" by (simp only: eq)
  qed
  then have "cursor_inv (q\<lparr>table := marked q last_id failed_list, start_id := m\<rparr>)"
    by (simp add: cursor_inv_def mk)
  moreover have "m < next_id (marked q last_id failed_list)"
    using next_id_gt[OF r0] m by (simp add: marked_def next_id_update_status)
  ultimately show ?thesis by (simp add: cursor_ok_def)
qed

lemma mark_result_cursor_ok:
  assumes ok: "cursor_ok q" and adm: "admissible q (MarkResult fault last_id failed_list)"
  shows "cursor_ok (fst (mark_result fault q last_id failed_list))"
  using mark_result_state[of fault q last_id failed_list] ok marked_cursor_ok[OF ok, of last_id failed_list]
    mark_result_advance_cursor_ok[OF ok adm]
  by (elim disjE conjE exE) simp_all

lemma exec_cursor_ok: "cursor_ok q \<Longrightarrow> admissible q op \<Longrightarrow> cursor_ok (exec q op)"
proof (cases op)
  case (Put exc r now)
  assume "cursor_ok q" then show ?thesis using Put by (simp add: put_cursor_ok)
next
  case (GetNewScan fault count)
  assume "cursor_ok q" then show ?thesis using GetNewScan by (simp add: get_new_scan_cursor_ok)
next
  case (MarkResult fault last_id failed_list)
  assume "cursor_ok q" "admissible q op"
  then show ?thesis using MarkResult by (simp only: exec.simps mark_result_cursor_ok)
next
  case (ResetUnscannedItem fault)
  assume "cursor_ok q" "admissible q op"
  then show ?thesis using ResetUnscannedItem by (simp only: exec.simps reset_cursor_ok)
qed

lemma run_cursor_ok: "cursor_ok q \<Longrightarrow> run_ok q ops \<Longrightarrow> cursor_ok (run q ops)"
proof (induction ops arbitrary: q)
  case Nil
  then show ?case by (simp add: run_def)
next
  case (Cons op ops)
  have "cursor_ok (exec q op)" using Cons.prems by (simp add: exec_cursor_ok)
  then have "cursor_ok (run (exec q op) ops)" using Cons.prems by (intro Cons.IH) simp_all
  then show ?case by (simp add: run_def)
qed

lemma new_request_model_cursor_ok:
  assumes "new_request_model fault t = Inr q"
  shows "\<forall>r\<in>set (table q). row_id r \<le> start_id q \<longrightarrow> scan_status r = SCANNED"
    and "cursor_ok q"
proof -
  from assms have f: "fault \<noteq> Some 0"
    by (auto simp: new_request_model_def init_start_id_def split: if_splits)
  then have same: "init_start_id fault t = init_start_id None t" by (simp add: init_start_id_def)
  from assms obtain s where s: "init_start_id None t = Inr s" and q: "q = \<lparr>table = t, start_id = s\<rparr>"
    by (auto simp: new_request_model_def same split: sum.splits)
  show 1: "\<forall>r\<in>set (table q). row_id r \<le> start_id q \<longrightarrow> scan_status r = SCANNED"
    using init_start_id_scanned[OF s] by (simp add: q)
  have "s < next_id t"
  proof (cases "select_min_id (\<lambda>r. scan_status r \<noteq> 1) t")
    case None
    then show ?thesis using s next_id_pos[of t] by (simp add: init_start_id_def)
  next
    case (Some m)
    from select_min_id_Some(1)[OF Some] obtain r where "r \<in> set t" "row_id r = m" by blast
    then have "m < next_id t" using next_id_gt by blast
    then show ?thesis using s Some by (simp add: init_start_id_def)
  qed
  then show "cursor_ok q" using 1 by (auto simp: cursor_ok_def cursor_inv_def q)
qed

text \<open>
  C4, as the code has it. Right after construction every record with an id at or below
  \<open>start_id\<close> is SCANNED. From there, every record with an id at or below \<open>start_id\<close>
  is SCANNED or FAILED along every sequence of operations, served or failing, in which
  each \<open>reset_unscanned_item\<close> finds no FAILED record at or below \<open>start_id\<close>, and each
  \<open>mark_result(last_id, failed_ids)\<close> either has \<open>last_id \<le> start_id\<close> or finds every
  record of the range \<open>start_id < id \<le> last_id\<close> IN\_PROGRESS, SCANNED, FAILED or listed in
  \<open>failed_ids\<close> and no record above \<open>last_id\<close> SCANNED; \<open>put\<close> and \<open>get_new_scan\<close> are
  unrestricted. One more operation under the same conditions keeps it so.
\<close>

theorem cursor_inv_reachable:
  assumes new: "new_request_model fault t = Inr q" and ok: "run_ok q ops"
  shows "(\<forall>r\<in>set (table q). row_id r \<le> start_id q \<longrightarrow> scan_status r = SCANNED)
    \<and> cursor_inv (run q ops)
    \<and> (\<forall>op. admissible (run q ops) op \<longrightarrow> cursor_inv (exec (run q ops) op))"
proof (intro conjI allI impI)
  show "\<forall>r\<in>set (table q). row_id r \<le> start_id q \<longrightarrow> scan_status r = SCANNED"
    using new by (rule new_request_model_cursor_ok)
  have c: "cursor_ok (run q ops)"
    using new_request_model_cursor_ok(2)[OF new] ok by (rule run_cursor_ok)
  then show "cursor_inv (run q ops)" by (simp add: cursor_ok_def)
  fix op assume "admissible (run q ops) op"
  with c have "cursor_ok (exec (run q ops) op)" by (rule exec_cursor_ok)
  then show "cursor_inv (exec (run q ops) op)" by (simp add: cursor_ok_def)
qed


text \<open>The sample run meets the conditions at every step.\<close>

theorem cursor_inv_reachable_witness:
  "new_request_model None [] = Inr fresh_queue
   \<and> run_ok fresh_queue S2_run
   \<and> cursor_inv (run fresh_queue S2_run)
   \<and> map scan_status (table (run fresh_queue S2_run)) = [SCANNED, SCANNED, FAILED]
   \<and> start_id (run fresh_queue S2_run) = 2"
proof -
  have 1: "new_request_model None [] = Inr fresh_queue"
    by (simp add: new_request_model_def init_start_id_def select_min_id_def fresh_queue_def)
  have 2: "run_ok fresh_queue S2_run" by (simp add: S2_run_def eval_defs)
  have 3: "map scan_status (table (run fresh_queue S2_run)) = [SCANNED, SCANNED, FAILED]"
    "start_id (run fresh_queue S2_run) = 2" by (simp_all add: S2_run_def eval_defs)
  from cursor_inv_reachable[OF 1 2] 1 2 3 show ?thesis by simp
qed

text \<open>
  C4 as stated fails, in two ways. First, \<open>reset_unscanned_item\<close> called after a failure
  was recorded: records 1 to 3 dispatched, \<open>mark_result(3, [2])\<close> leaves record 2 FAILED
  below \<open>start_id = 3\<close>, and the reset makes it UNSCANNED there. Second, \<open>mark_result\<close>
  after a restart: the earlier process left records 1 and 2 FAILED and 3 SCANNED; the new
  process starts at \<open>start_id = 0\<close>, resets 1 and 2 to UNSCANNED, dispatches record 1 alone,
  and \<open>mark_result(1, [])\<close> moves \<open>start_id\<close> to 3, above record 2, which is still
  UNSCANNED.
\<close>

theorem cursor_inv_counterexample:
  "new_request_model None [] = Inr fresh_queue
   \<and> cursor_inv (run fresh_queue (dispatch_three @ [MarkResult None 3 [2]]))
   \<and> map scan_status (table (run fresh_queue
          (dispatch_three @ [MarkResult None 3 [2], ResetUnscannedItem None])))
        = [SCANNED, UNSCANNED, SCANNED]
   \<and> start_id (run fresh_queue
          (dispatch_three @ [MarkResult None 3 [2], ResetUnscannedItem None])) = 3
   \<and> \<not> cursor_inv (run fresh_queue
          (dispatch_three @ [MarkResult None 3 [2], ResetUnscannedItem None]))
   \<and> map scan_status left_table = [FAILED, FAILED, SCANNED]
   \<and> new_request_model None left_table = Inr \<lparr>table = left_table, start_id = 0\<rparr>
   \<and> cursor_inv (run \<lparr>table = left_table, start_id = 0\<rparr>
          [ResetUnscannedItem None, GetNewScan None 1])
   \<and> map scan_status (table (run \<lparr>table = left_table, start_id = 0\<rparr>
          [ResetUnscannedItem None, GetNewScan None 1, MarkResult None 1 []]))
        = [SCANNED, UNSCANNED, SCANNED]
   \<and> start_id (run \<lparr>table = left_table, start_id = 0\<rparr>
          [ResetUnscannedItem None, GetNewScan None 1, MarkResult None 1 []]) = 3
   \<and> \<not> cursor_inv (run \<lparr>table = left_table, start_id = 0\<rparr>
          [ResetUnscannedItem None, GetNewScan None 1, MarkResult None 1 []])"
  by (simp add: left_table_def dispatch_three_def eval_defs cursor_inv_def new_request_model_def
        init_start_id_def)

section \<open>Tables built by put\<close>

text \<open>
  The conditions on the table that the theorems on \<open>get_new_scan\<close> and on startup assume
  hold for every table that the operations of the queue build from the empty one.
\<close>

lemma put_well_formed:
  assumes "well_formed (table q)"
  shows "well_formed (table (fst (put exc q r now)))"
proof -
  let ?new = "\<lparr>row_id = next_id (table q), data = dump r, data_hash = get_hash r,
               scan_status = 0, time = now\<rparr>"
  have "\<forall>x\<in>set (table q). row_id x < next_id (table q)" using next_id_gt by blast
  then have "well_formed (table q @ [?new])"
    using assms next_id_pos[of "table q"]
    by (simp add: well_formed_def sorted_wrt_append list_all_iff)
  then show ?thesis using assms
    by (simp add: put_def create_object_def split: option.splits sum.splits driver_error.splits)
qed

lemma well_formed_ids: "map row_id t' = map row_id t \<Longrightarrow> well_formed t \<Longrightarrow> well_formed t'"
proof -
  assume eq: "map row_id t' = map row_id t" and wf: "well_formed t"
  have "list_all (\<lambda>r. 0 < row_id r) t' \<longleftrightarrow> list_all (\<lambda>i. 0 < i) (map row_id t')"
    by (simp add: list_all_iff)
  also have "\<dots> \<longleftrightarrow> list_all (\<lambda>r. 0 < row_id r) t" unfolding eq by (simp add: list_all_iff)
  finally show ?thesis using wf eq by (simp add: well_formed_def)
qed

lemma exec_well_formed: "well_formed (table q) \<Longrightarrow> well_formed (table (exec q op))"
proof (cases op)
  case (Put exc r now)
  assume "well_formed (table q)" then show ?thesis using Put by (simp add: put_well_formed)
next
  case (GetNewScan fault count)
  have "map row_id (table (fst (get_new_scan fault q count))) = map row_id (table q)"
    using arg_cong[OF get_new_scan_payload[of fault q count], of "map fst"]
    by (simp add: payload_def comp_def)
  moreover assume "well_formed (table q)"
  ultimately show ?thesis using GetNewScan by (simp add: well_formed_ids)
next
  case (MarkResult fault last_id failed_list)
  have "map row_id (table (fst (mark_result fault q last_id failed_list))) = map row_id (table q)"
    using arg_cong[OF mark_result_payload[of fault q last_id failed_list], of "map fst"]
    by (simp add: payload_def comp_def)
  moreover assume "well_formed (table q)"
  ultimately show ?thesis using MarkResult by (simp add: well_formed_ids)
next
  case (ResetUnscannedItem fault)
  have "map row_id (table (fst (reset_unscanned_item fault q))) = map row_id (table q)"
    using arg_cong[OF reset_payload[of fault q], of "map fst"]
    by (simp add: payload_def comp_def)
  moreover assume "well_formed (table q)"
  ultimately show ?thesis using ResetUnscannedItem by (simp add: well_formed_ids)
qed

lemma run_well_formed: "well_formed (table q) \<Longrightarrow> well_formed (table (run q ops))"
proof (induction ops arbitrary: q)
  case Nil
  then show ?case by (simp add: run_def)
next
  case (Cons op ops)
  have "well_formed (table (run (exec q op) ops))"
    using Cons.prems by (intro Cons.IH exec_well_formed)
  then show ?case by (simp add: run_def)
qed

lemma fresh_run_well_formed:
  "sorted_wrt (<) (map row_id (table (run fresh_queue ops)))"
  "distinct (map row_id (table (run fresh_queue ops)))"
  "\<forall>r\<in>set (table (run fresh_queue ops)). 0 < row_id r"
proof -
  have "well_formed (table fresh_queue)" by (simp add: well_formed_def fresh_queue_def)
  then have wf: "well_formed (table (run fresh_queue ops))" by (rule run_well_formed)
  then show "sorted_wrt (<) (map row_id (table (run fresh_queue ops)))"
    by (simp add: well_formed_def)
  then show "distinct (map row_id (table (run fresh_queue ops)))"
    by (simp add: strict_sorted_iff)
  show "\<forall>r\<in>set (table (run fresh_queue ops)). 0 < row_id r"
    using wf by (simp add: well_formed_def list_all_iff)
qed

end
